theory Spec2Isabelle
  imports Main
begin

section \<open>Python values used by both programs\<close>

text \<open>
  Python integers are unbounded, so they are \<open>int\<close>.  Every exception the two
  programs can raise is a constructor of \<open>error\<close>; a function that can raise
  returns \<open>error + 'a\<close> with \<open>Inl\<close> for the exception.
\<close>

datatype error =
  AssertionError | TypeError | IndexError | ValueError | OverflowError | SystemError

text \<open>\<open>range(a, b)\<close> with the default step 1.\<close>

definition range_py :: "int \<Rightarrow> int \<Rightarrow> int list" where
  "range_py a b = [a..b - 1]"

text \<open>\<open>len(xs)\<close> as a Python integer.\<close>

definition len :: "'a list \<Rightarrow> int" where
  "len xs = int (length xs)"

text \<open>
  \<open>xs[i]\<close>: a negative index counts from the end, anything outside
  \<open>-len(xs) .. len(xs) - 1\<close> raises \<open>IndexError\<close>.
\<close>

definition get :: "'a list \<Rightarrow> int \<Rightarrow> error + 'a" where
  "get xs i =
     (let j = (if i < 0 then len xs + i else i)
      in if 0 \<le> j \<and> j < len xs then Inr (xs ! nat j) else Inl IndexError)"

section \<open>Question 2: the Sokoban encoder (q2.py)\<close>

subsection \<open>The encoder object\<close>

text \<open>
  The fields of \<open>SokobanEncoder\<close>.  A grid cell is a Python string, a position
  is a pair of integers, \<open>player_start\<close> is \<open>None\<close> until a \<open>'P'\<close> cell
  is seen.  The field \<open>cnf\<close> is created empty and never read, so it is left out.
\<close>

record encoder =
  grid :: "string list list"
  T :: int
  N :: int
  M :: int
  goals :: "(int \<times> int) list"
  boxes :: "(int \<times> int) list"
  walls :: "(int \<times> int) list"
  player_start :: "(int \<times> int) option"
  num_boxes :: int

subsection \<open>Variable identifiers\<close>

text \<open>
  The four methods \<open>var_goal\<close>, \<open>var_player\<close>, \<open>var_move\<close> and \<open>var_box\<close>.
  Each \<open>assert\<close> that fails raises \<open>AssertionError\<close>.
\<close>

definition var_goal :: "encoder \<Rightarrow> int \<Rightarrow> int \<Rightarrow> error + int" where
  "var_goal e x y =
     (if \<not> (x < N e \<and> y < M e) then Inl AssertionError
      else if \<not> (x \<ge> 0 \<and> y \<ge> 0) then Inl AssertionError
      else Inr (x * M e + y + 1))"

definition var_player :: "encoder \<Rightarrow> int \<Rightarrow> int \<Rightarrow> int \<Rightarrow> error + int" where
  "var_player e x y t =
     (if \<not> (x < N e \<and> y < M e) then Inl AssertionError
      else if \<not> (x \<ge> 0 \<and> y \<ge> 0) then Inl AssertionError
      else if \<not> t \<ge> 0 then Inl AssertionError
      else if \<not> t < T e then Inl AssertionError
      else Inr ((t + 1) * M e * N e + x * M e + y + 1))"

definition var_move :: "encoder \<Rightarrow> int \<Rightarrow> int \<Rightarrow> error + int" where
  "var_move e num t =
     (if \<not> (num \<ge> 1 \<and> num \<le> 9) then Inl AssertionError
      else if \<not> (t \<ge> 0 \<and> t < T e) then Inl AssertionError
      else Inr ((T e + 1) * M e * N e + 9 * t + num))"

definition var_box :: "encoder \<Rightarrow> int \<Rightarrow> int \<Rightarrow> int \<Rightarrow> int \<Rightarrow> error + int" where
  "var_box e b x y t =
     (if \<not> (b \<ge> 1 \<and> b \<le> num_boxes e) then Inl AssertionError
      else if \<not> (x < N e \<and> y < M e) then Inl AssertionError
      else if \<not> (x \<ge> 0 \<and> y \<ge> 0) then Inl AssertionError
      else if \<not> (t \<ge> 0 \<and> t < T e) then Inl AssertionError
      else Inr ((1 + T e) * N e * M e + 9 * T e + num_boxes e * t * N e * M e
                + (b - 1) * N e * M e + x * M e + y + 1))"

subsection \<open>Construction: \<open>__init__\<close> and \<open>_parse_grid\<close>\<close>

text \<open>
  \<open>_parse_grid\<close> visits the cells row by row; reading a cell outside a short row
  raises \<open>IndexError\<close>.  Nothing is checked at the end: a grid without \<open>'P'\<close>
  leaves \<open>player_start\<close> at \<open>None\<close>.
\<close>

definition parse_cell :: "encoder \<Rightarrow> int \<Rightarrow> int \<Rightarrow> error + encoder" where
  "parse_cell e x y =
     (case get (grid e) x of Inl er \<Rightarrow> Inl er | Inr row \<Rightarrow>
      (case get row y of Inl er \<Rightarrow> Inl er | Inr c \<Rightarrow>
         Inr (if c = ''P'' then e\<lparr>player_start := Some (x, y)\<rparr>
              else if c = ''B'' then e\<lparr>boxes := boxes e @ [(x, y)]\<rparr>
              else if c = ''G'' then e\<lparr>goals := goals e @ [(x, y)]\<rparr>
              else if c = ''#'' then e\<lparr>walls := walls e @ [(x, y)]\<rparr>
              else e)))"

fun parse_cells :: "encoder \<Rightarrow> (int \<times> int) list \<Rightarrow> error + encoder" where
  "parse_cells e [] = Inr e"
| "parse_cells e ((x, y) # cs) =
     (case parse_cell e x y of Inl er \<Rightarrow> Inl er | Inr e' \<Rightarrow> parse_cells e' cs)"

definition parse_grid :: "encoder \<Rightarrow> error + encoder" where
  "parse_grid e = parse_cells e [(x, y). x \<leftarrow> range_py 0 (N e), y \<leftarrow> range_py 0 (M e)]"

text \<open>\<open>SokobanEncoder(grid, T)\<close>: \<open>len(grid[0])\<close> raises on an empty grid.\<close>

definition init :: "string list list \<Rightarrow> int \<Rightarrow> error + encoder" where
  "init g k =
     (case get g 0 of Inl er \<Rightarrow> Inl er | Inr row0 \<Rightarrow>
      (case parse_grid \<lparr>grid = g, T = k + 1, N = len g, M = len row0, goals = [],
                         boxes = [], walls = [], player_start = None, num_boxes = 0\<rparr>
       of Inl er \<Rightarrow> Inl er
        | Inr e \<Rightarrow> Inr (e\<lparr>num_boxes := len (boxes e)\<rparr>)))"

subsection \<open>Clause generation: \<open>encode\<close>\<close>

text \<open>
  A literal under construction is the result of a variable-identifier call, so it may
  be an exception; \<open>neg\<close> is the unary minus applied to that result.  \<open>collect\<close>
  turns the literals into the integer clause list, or into the first exception in
  evaluation order.
\<close>

type_synonym lit = "error + int"

definition neg :: "lit \<Rightarrow> lit" where
  "neg l = (case l of Inl er \<Rightarrow> Inl er | Inr v \<Rightarrow> Inr (- v))"

fun collect_clause :: "lit list \<Rightarrow> error + int list" where
  "collect_clause [] = Inr []"
| "collect_clause (Inl er # ls) = Inl er"
| "collect_clause (Inr v # ls) =
     (case collect_clause ls of Inl er \<Rightarrow> Inl er | Inr vs \<Rightarrow> Inr (v # vs))"

fun collect :: "lit list list \<Rightarrow> error + int list list" where
  "collect [] = Inr []"
| "collect (c # cs) =
     (case collect_clause c of Inl er \<Rightarrow> Inl er
      | Inr vs \<Rightarrow> (case collect cs of Inl er \<Rightarrow> Inl er | Inr vss \<Rightarrow> Inr (vs # vss)))"

text \<open>The cell reached from \<open>(x, y)\<close> by one step; order U, R, D, L.\<close>

definition step_dir :: "int \<Rightarrow> int \<Rightarrow> int \<Rightarrow> int \<times> int" where
  "step_dir move x y =
     (if move = 0 then (x - 1, y)
      else if move = 1 then (x, y + 1)
      else if move = 2 then (x + 1, y)
      else (x, y - 1))"

text \<open>1. Initial conditions, goal cells, walls, and the stay at \<open>t = 0\<close>.\<close>

definition box_start :: "encoder \<Rightarrow> int \<Rightarrow> lit" where
  "box_start e box =
     (case get (boxes e) box of Inl er \<Rightarrow> Inl er
      | Inr p \<Rightarrow> var_box e (box + 1) (fst p) (snd p) 0)"

definition wall_clauses :: "encoder \<Rightarrow> int \<times> int \<Rightarrow> int \<Rightarrow> lit list list" where
  "wall_clauses e w t =
     [neg (var_player e (fst w) (snd w) t)]
     # [[neg (var_box e (box + 1) (fst w) (snd w) t)]. box \<leftarrow> range_py 0 (num_boxes e)]"

definition goal_clause :: "encoder \<Rightarrow> int \<Rightarrow> int \<Rightarrow> lit list" where
  "goal_clause e x y =
     [if (x, y) \<in> set (goals e) then var_goal e x y else neg (var_goal e x y)]"

definition initial_conditions :: "encoder \<Rightarrow> int \<times> int \<Rightarrow> lit list list" where
  "initial_conditions e p =
     [[var_player e (fst p) (snd p) 0]]
     @ [[box_start e box]. box \<leftarrow> range_py 0 (num_boxes e)]
     @ [goal_clause e x y. x \<leftarrow> range_py 0 (N e), y \<leftarrow> range_py 0 (M e)]
     @ concat [wall_clauses e w t. w \<leftarrow> walls e, t \<leftarrow> range_py 0 (T e)]
     @ [[var_move e 9 0]]"

text \<open>2. Player movement.\<close>

definition move_clauses :: "encoder \<Rightarrow> int \<Rightarrow> int \<Rightarrow> int \<Rightarrow> int \<Rightarrow> lit list list" where
  "move_clauses e x y move t =
     [[neg (var_move e (move + 1) t), neg (var_box e (box + 1) x y (t - 1)),
       var_box e (box + 1) x y t]. box \<leftarrow> range_py 0 (num_boxes e)]
     @ (let (new_x, new_y) = step_dir move x y in
        if new_x < 0 \<or> new_y < 0 \<or> new_x \<ge> N e \<or> new_y \<ge> M e
        then [[neg (var_move e (move + 1) t), neg (var_player e x y (t - 1))]]
        else [[neg (var_move e (move + 1) t), neg (var_player e x y (t - 1)),
               var_player e new_x new_y t]])"

definition player_movement :: "encoder \<Rightarrow> lit list list" where
  "player_movement e =
     concat [move_clauses e x y move t.
             x \<leftarrow> range_py 0 (N e), y \<leftarrow> range_py 0 (M e),
             move \<leftarrow> range_py 0 4, t \<leftarrow> range_py 1 (T e)]"

text \<open>
  3. Box movement (push rules).  For one box the source appends the clause that moves
  the player, the clause that moves the box, and one frame clause for every cell other
  than the cell ahead of the player.
\<close>

definition push_player_clause ::
  "encoder \<Rightarrow> int \<Rightarrow> int \<Rightarrow> int \<Rightarrow> int \<Rightarrow> int \<Rightarrow> int \<Rightarrow> int \<Rightarrow> lit list" where
  "push_player_clause e x y t move new_x new_y box =
     [neg (var_move e (move + 5) t), neg (var_player e x y (t - 1)),
      neg (var_box e (box + 1) new_x new_y (t - 1)), var_player e new_x new_y t]"

definition push_moved_clause ::
  "encoder \<Rightarrow> int \<Rightarrow> int \<Rightarrow> int \<Rightarrow> int \<Rightarrow> int \<Rightarrow> int \<Rightarrow> int \<Rightarrow> int \<Rightarrow> int \<Rightarrow> lit list" where
  "push_moved_clause e x y t move new_x new_y box_x box_y box =
     [neg (var_move e (move + 5) t), neg (var_player e x y (t - 1)),
      neg (var_box e (box + 1) new_x new_y (t - 1)), var_box e (box + 1) box_x box_y t]"

definition push_frame_clause ::
  "encoder \<Rightarrow> int \<Rightarrow> int \<Rightarrow> int \<Rightarrow> int \<Rightarrow> int \<Rightarrow> int \<Rightarrow> int \<Rightarrow> lit list" where
  "push_frame_clause e x y t move box prime_x prime_y =
     [neg (var_move e (move + 5) t), neg (var_player e x y (t - 1)),
      neg (var_box e (box + 1) prime_x prime_y (t - 1)),
      var_box e (box + 1) prime_x prime_y t]"

definition push_frame_clauses ::
  "encoder \<Rightarrow> int \<Rightarrow> int \<Rightarrow> int \<Rightarrow> int \<Rightarrow> int \<Rightarrow> int \<Rightarrow> int \<Rightarrow> lit list list" where
  "push_frame_clauses e x y t move new_x new_y box =
     [push_frame_clause e x y t move box prime_x prime_y.
      prime_x \<leftarrow> range_py 0 (N e), prime_y \<leftarrow> range_py 0 (M e),
      (prime_x, prime_y) \<noteq> (new_x, new_y)]"

definition push_clauses :: "encoder \<Rightarrow> int \<Rightarrow> int \<Rightarrow> int \<Rightarrow> int \<Rightarrow> lit list list" where
  "push_clauses e x y t move =
     (let (new_x, new_y) = step_dir move x y;
          (box_x, box_y) = step_dir move new_x new_y in
      if new_x < 0 \<or> new_y < 0 \<or> new_x \<ge> N e \<or> new_y \<ge> M e
         \<or> box_x < 0 \<or> box_y < 0 \<or> box_x \<ge> N e \<or> box_y \<ge> M e
      then [[neg (var_move e (move + 5) t), neg (var_player e x y (t - 1))]]
      else concat [push_player_clause e x y t move new_x new_y box
                   # push_moved_clause e x y t move new_x new_y box_x box_y box
                   # push_frame_clauses e x y t move new_x new_y box.
                   box \<leftarrow> range_py 0 (num_boxes e)]
           @ [[neg (var_move e (move + 5) t), neg (var_player e x y (t - 1))]
              @ [var_box e (box + 1) new_x new_y (t - 1).
                 box \<leftarrow> range_py 0 (num_boxes e)]])"

definition box_movement :: "encoder \<Rightarrow> lit list list" where
  "box_movement e =
     concat [push_clauses e x y t move.
             x \<leftarrow> range_py 0 (N e), y \<leftarrow> range_py 0 (M e),
             t \<leftarrow> range_py 1 (T e), move \<leftarrow> range_py 0 4]"

text \<open>4. Non-overlap constraints.\<close>

definition overlap_clauses :: "encoder \<Rightarrow> int \<Rightarrow> int \<Rightarrow> int \<Rightarrow> int \<Rightarrow> lit list list" where
  "overlap_clauses e x y box t =
     [neg (var_player e x y t), neg (var_box e (box + 1) x y t)]
     # [[neg (var_box e (box + 1) x y t), neg (var_box e (boxd + 1) x y t)].
          boxd \<leftarrow> range_py (box + 1) (num_boxes e)]"

definition non_overlap :: "encoder \<Rightarrow> lit list list" where
  "non_overlap e =
     concat [overlap_clauses e x y box t.
             x \<leftarrow> range_py 0 (N e), y \<leftarrow> range_py 0 (M e),
             box \<leftarrow> range_py 0 (num_boxes e), t \<leftarrow> range_py 0 (T e)]"

text \<open>5. Goal conditions.\<close>

definition final_clause :: "encoder \<Rightarrow> int \<Rightarrow> int \<Rightarrow> int \<Rightarrow> lit list" where
  "final_clause e x y box = [neg (var_box e (box + 1) x y (T e - 1)), var_goal e x y]"

definition goal_conditions :: "encoder \<Rightarrow> lit list list" where
  "goal_conditions e =
     [final_clause e x y box.
      x \<leftarrow> range_py 0 (N e), y \<leftarrow> range_py 0 (M e), box \<leftarrow> range_py 0 (num_boxes e)]"

text \<open>6. Exactly one move at a time.\<close>

definition one_move :: "encoder \<Rightarrow> int \<Rightarrow> lit list list" where
  "one_move e t =
     concat [[[neg (var_move e i t), neg (var_move e j t)]. j \<leftarrow> range_py (i + 1) 10].
             i \<leftarrow> range_py 1 10]
     @ [[var_move e i t. i \<leftarrow> range_py 1 10]]"

text \<open>
  7. Uniqueness per time: the clause itself, then a pair of negations for every two
  positions \<open>n < nd\<close> of it.
\<close>

definition exactly_one :: "lit list \<Rightarrow> lit list list" where
  "exactly_one clause =
     clause # [[neg (clause ! n), neg (clause ! nd)].
               n \<leftarrow> [0..<length clause], nd \<leftarrow> [n + 1..<length clause]]"

definition player_cells :: "encoder \<Rightarrow> int \<Rightarrow> lit list" where
  "player_cells e t = [var_player e x y t. x \<leftarrow> range_py 0 (N e), y \<leftarrow> range_py 0 (M e)]"

definition box_cells :: "encoder \<Rightarrow> int \<Rightarrow> int \<Rightarrow> lit list" where
  "box_cells e box t =
     [var_box e (box + 1) x y t. x \<leftarrow> range_py 0 (N e), y \<leftarrow> range_py 0 (M e)]"

definition uniqueness :: "encoder \<Rightarrow> int \<Rightarrow> lit list list" where
  "uniqueness e t =
     exactly_one (player_cells e t)
     @ concat [exactly_one (box_cells e box t). box \<leftarrow> range_py 0 (num_boxes e)]"

text \<open>8. Stay conditions.\<close>

definition stay_clauses :: "encoder \<Rightarrow> int \<Rightarrow> int \<Rightarrow> int \<Rightarrow> lit list list" where
  "stay_clauses e t x y =
     [[neg (var_move e 9 t), neg (var_box e (box + 1) x y (t - 1)), var_box e (box + 1) x y t].
      box \<leftarrow> range_py 0 (num_boxes e)]
     @ [[neg (var_move e 9 t), neg (var_player e x y (t - 1)), var_player e x y t]]"

definition stay_conditions :: "encoder \<Rightarrow> lit list list" where
  "stay_conditions e =
     concat [stay_clauses e t x y.
             t \<leftarrow> range_py 1 (T e), x \<leftarrow> range_py 0 (N e), y \<leftarrow> range_py 0 (M e)]"

definition encode_lits :: "encoder \<Rightarrow> int \<times> int \<Rightarrow> lit list list" where
  "encode_lits e p =
     initial_conditions e p @ player_movement e @ box_movement e @ non_overlap e
     @ goal_conditions e @ concat [one_move e t. t \<leftarrow> range_py 0 (T e)]
     @ concat [uniqueness e t. t \<leftarrow> range_py 0 (T e)] @ stay_conditions e"

text \<open>
  \<open>encode\<close>: its first statement subscripts \<open>player_start\<close>, which raises
  \<open>TypeError\<close> when that is \<open>None\<close>.
\<close>

definition encode :: "encoder \<Rightarrow> error + int list list" where
  "encode e =
     (case player_start e of None \<Rightarrow> Inl TypeError
      | Some p \<Rightarrow> collect (encode_lits e p))"

subsection \<open>Decoding and the driver\<close>

text \<open>The \<open>match\<close> of \<open>decode\<close>: codes 0..7 append a direction, code 8 nothing.\<close>

definition symbol :: "int \<Rightarrow> string list" where
  "symbol k =
     (if k = 0 then [''U''] else if k = 1 then [''R'']
      else if k = 2 then [''D''] else if k = 3 then [''L'']
      else if k = 4 then [''U''] else if k = 5 then [''R'']
      else if k = 6 then [''D''] else if k = 7 then [''L'']
      else [])"

fun decode_loop :: "int list \<Rightarrow> int \<Rightarrow> int list \<Rightarrow> string list \<Rightarrow> error + string list" where
  "decode_loop model base [] moves = Inr moves"
| "decode_loop model base (index # rest) moves =
     (case get model index of Inl er \<Rightarrow> Inl er
      | Inr v \<Rightarrow> decode_loop model base rest
                  (if v > 0 then moves @ symbol ((index - base) mod 9) else moves))"

definition decode :: "int list \<Rightarrow> encoder \<Rightarrow> error + string list" where
  "decode model e =
     (let base = (T e + 1) * N e * M e
      in decode_loop model base (range_py base (base + 9 * T e)) [])"

text \<open>
  The SAT solver is an external collaborator: a function from the clause list to
  \<open>None\<close> (unsatisfiable) or a model.  \<open>solve_sokoban\<close> returns \<open>-1\<close>
  (\<open>Infeasible\<close>) or the move list.
\<close>

datatype outcome = Infeasible | Moves "string list"

definition solve_sokoban ::
  "(int list list \<Rightarrow> int list option) \<Rightarrow> string list list \<Rightarrow> int \<Rightarrow> error + outcome" where
  "solve_sokoban solver g k =
     (case init g k of Inl er \<Rightarrow> Inl er | Inr e \<Rightarrow>
      (case encode e of Inl er \<Rightarrow> Inl er | Inr cnf \<Rightarrow>
       (case solver cnf of None \<Rightarrow> Inr Infeasible
        | Some model \<Rightarrow>
            if model = [] then Inr Infeasible
            else (case decode model e of Inl er \<Rightarrow> Inl er | Inr ms \<Rightarrow> Inr (Moves ms)))))"

subsection \<open>What a model is\<close>

text \<open>
  The solver's model lists one signed literal per variable: entry \<open>i\<close> is \<open>i + 1\<close>
  or \<open>-(i + 1)\<close>.  Both decoders read it with the test \<open>model[v - 1] > 0\<close>,
  which is \<open>var_true\<close>.  A truth assignment makes a literal hold by its sign, and a
  clause when one of its literals holds; the list is a model of a clause list when it
  covers every variable and its assignment makes every clause hold.
\<close>

definition var_true :: "int list \<Rightarrow> int \<Rightarrow> bool" where
  "var_true model v = (1 \<le> v \<and> v \<le> len model \<and> model ! nat (v - 1) > 0)"

definition lit_holds :: "(int \<Rightarrow> bool) \<Rightarrow> int \<Rightarrow> bool" where
  "lit_holds \<sigma> l = (if l > 0 then \<sigma> l else l < 0 \<and> \<not> \<sigma> (- l))"

definition clause_holds :: "(int \<Rightarrow> bool) \<Rightarrow> int list \<Rightarrow> bool" where
  "clause_holds \<sigma> c = (\<exists>l \<in> set c. lit_holds \<sigma> l)"

definition pysat_model :: "int list \<Rightarrow> int list list \<Rightarrow> bool" where
  "pysat_model model cnf =
     (map abs model = [1..len model]
      \<and> (\<forall>c \<in> set cnf. (\<forall>l \<in> set c. \<bar>l\<bar> \<le> len model) \<and> clause_holds (var_true model) c))"

text \<open>
  The same for a clause still made of identifier calls: a call that raised makes
  nothing hold.
\<close>

definition holds :: "(int \<Rightarrow> bool) \<Rightarrow> lit list \<Rightarrow> bool" where
  "holds \<sigma> c = (\<exists>l \<in> set c. case l of Inl er \<Rightarrow> False | Inr v \<Rightarrow> lit_holds \<sigma> v)"

text \<open>
  A clause of identifier calls is \<open>sound\<close> under an assignment when no call raised
  and the clause holds.  The solver answers a clause list correctly when it returns a
  model of it, or \<open>None\<close> and there is none.
\<close>

definition sound :: "(int \<Rightarrow> bool) \<Rightarrow> lit list \<Rightarrow> bool" where
  "sound \<sigma> c = ((\<forall>l \<in> set c. \<exists>v. l = Inr v) \<and> holds \<sigma> c)"

definition answers_correctly :: "(int list list \<Rightarrow> int list option) \<Rightarrow> int list list \<Rightarrow> bool" where
  "answers_correctly solver cnf =
     (case solver cnf of None \<Rightarrow> (\<forall>m. \<not> pysat_model m cnf) | Some m \<Rightarrow> pysat_model m cnf)"

text \<open>
  \<open>extends e e'\<close>: the two encoders are of the same grid, with non-negative
  dimensions, and the horizon of \<open>e'\<close> is at least that of \<open>e\<close>.
\<close>

definition extends :: "encoder \<Rightarrow> encoder \<Rightarrow> bool" where
  "extends e e' =
     (N e' = N e \<and> M e' = M e \<and> num_boxes e' = num_boxes e \<and> goals e' = goals e
      \<and> boxes e' = boxes e \<and> walls e' = walls e \<and> player_start e' = player_start e
      \<and> 1 \<le> T e \<and> T e \<le> T e' \<and> 0 \<le> N e \<and> 0 \<le> M e \<and> 0 \<le> num_boxes e)"

text \<open>
  Padding a plan with stays.  \<open>e'\<close> is \<open>e\<close> with a longer horizon; \<open>pad e e' \<sigma>\<close>
  gives a variable of \<open>e'\<close> the value \<open>\<sigma>\<close> gives the same fact of \<open>e\<close>, where a
  position after the last step of \<open>e\<close> is the position at that last step and the action
  at a step after it is the stay (code 9).
\<close>

definition pad :: "encoder \<Rightarrow> encoder \<Rightarrow> (int \<Rightarrow> bool) \<Rightarrow> int \<Rightarrow> bool" where
  "pad e e' \<sigma> v =
     ((\<exists>x y u. var_goal e' x y = Inr v \<and> var_goal e x y = Inr u \<and> \<sigma> u)
      \<or> (\<exists>x y t u. var_player e' x y t = Inr v
             \<and> var_player e x y (min t (T e - 1)) = Inr u \<and> \<sigma> u)
      \<or> (\<exists>num t. var_move e' num t = Inr v
             \<and> (if t < T e then (\<exists>u. var_move e num t = Inr u \<and> \<sigma> u) else num = 9))
      \<or> (\<exists>b x y t u. var_box e' b x y t = Inr v
             \<and> var_box e b x y (min t (T e - 1)) = Inr u \<and> \<sigma> u))"

text \<open>
  Two literals under construction agree when both are identifiers and the padded
  assignment gives the second the value the first has; one implies the other when the
  second holds whenever the first does.
\<close>

definition same :: "(int \<Rightarrow> bool) \<Rightarrow> (int \<Rightarrow> bool) \<Rightarrow> lit \<Rightarrow> lit \<Rightarrow> bool" where
  "same \<sigma> \<sigma>' l l' = (\<exists>u v. l = Inr u \<and> l' = Inr v \<and> 0 < u \<and> 0 < v \<and> \<sigma>' v = \<sigma> u)"

definition imp :: "(int \<Rightarrow> bool) \<Rightarrow> (int \<Rightarrow> bool) \<Rightarrow> lit \<Rightarrow> lit \<Rightarrow> bool" where
  "imp \<sigma> \<sigma>' l l' = (\<exists>u v. l = Inr u \<and> l' = Inr v \<and> (lit_holds \<sigma> u \<longrightarrow> lit_holds \<sigma>' v))"

text \<open>The clause list \<open>solve_sokoban\<close> hands to the solver.\<close>

definition sokoban_cnf :: "string list list \<Rightarrow> int \<Rightarrow> error + int list list" where
  "sokoban_cnf g k = (case init g k of Inl er \<Rightarrow> Inl er | Inr e \<Rightarrow> encode e)"

subsection \<open>Directions and actions\<close>

text \<open>
  The table \<open>DIRS\<close> of the source.  The direction of an action code is the symbol
  whose offset is the step the encoder takes for that code: move codes are
  \<open>move + 1\<close> and push codes \<open>move + 5\<close> for \<open>move\<close> in \<open>0..3\<close>; code 9, the
  stay, has none.  \<open>true_actions\<close> lists the codes whose variable the model makes
  true at a step.
\<close>

definition DIRS :: "(string \<times> int \<times> int) list" where
  "DIRS = [(''U'', (- 1, 0)), (''D'', (1, 0)), (''L'', (0, - 1)), (''R'', (0, 1))]"

definition direction :: "int \<Rightarrow> string list" where
  "direction num =
     (if 1 \<le> num \<and> num \<le> 8
      then [fst d. d \<leftarrow> DIRS, step_dir ((num - 1) mod 4) 0 0 = snd d]
      else [])"

definition action_true :: "int list \<Rightarrow> encoder \<Rightarrow> int \<Rightarrow> int \<Rightarrow> bool" where
  "action_true model e num t =
     (case var_move e num t of Inl er \<Rightarrow> False | Inr v \<Rightarrow> var_true model v)"

definition true_actions :: "int list \<Rightarrow> encoder \<Rightarrow> int \<Rightarrow> int list" where
  "true_actions model e t = [num. num \<leftarrow> range_py 1 10, action_true model e num t]"

subsection \<open>Identifier ranges\<close>

text \<open>
  The identifiers each family takes on the arguments it accepts, and the number of
  variables according to the layout comment at the end of the source:
  \<open>((B + 1) * T + 1) * N * M + 9 * T\<close>.
\<close>

definition goal_ids :: "encoder \<Rightarrow> int set" where
  "goal_ids e = {v. \<exists>x y. var_goal e x y = Inr v}"

definition player_ids :: "encoder \<Rightarrow> int set" where
  "player_ids e = {v. \<exists>x y t. var_player e x y t = Inr v}"

definition move_ids :: "encoder \<Rightarrow> int set" where
  "move_ids e = {v. \<exists>num t. var_move e num t = Inr v}"

definition box_ids :: "encoder \<Rightarrow> int set" where
  "box_ids e = {v. \<exists>b x y t. var_box e b x y t = Inr v}"

definition total_var_count :: "encoder \<Rightarrow> int" where
  "total_var_count e = ((num_boxes e + 1) * T e + 1) * N e * M e + 9 * T e"

section \<open>Question 1: the Sudoku solver (q1.py)\<close>

text \<open>
  The nested function \<open>prop\<close> of \<open>solve_sudoku\<close>; \<open>n\<close> is the captured
  \<open>len(grid)\<close>.  It is plain arithmetic: the source checks nothing.  (\<open>prop\<close> is reserved in
  Isabelle, hence the name \<open>prop_id\<close>.)
\<close>

definition prop_id :: "int \<Rightarrow> int \<Rightarrow> int \<Rightarrow> int \<Rightarrow> int" where
  "prop_id n row col num = (row * n + col) * n + num"


text \<open>The identifiers \<open>prop\<close> takes on the cells and values of an \<open>n\<close>-by-\<open>n\<close> grid.\<close>

definition prop_ids :: "int \<Rightarrow> int set" where
  "prop_ids n =
     {v. \<exists>r c num. 0 \<le> r \<and> r < n \<and> 0 \<le> c \<and> c < n \<and> 1 \<le> num \<and> num \<le> n
                    \<and> v = prop_id n r c num}"

text \<open>
  \<open>sub_n = int(n**0.5)\<close>.  The power is a floating-point operation; it is modelled
  by the integer it is meant to produce, the largest \<open>k\<close> with \<open>k * k \<le> n\<close>, which
  is what the source computes for every grid size whose square root a double holds
  exactly.
\<close>

fun isqrt_from :: "nat \<Rightarrow> nat \<Rightarrow> nat" where
  "isqrt_from 0 n = 0"
| "isqrt_from (Suc k) n = (if Suc k * Suc k \<le> n then Suc k else isqrt_from k n)"

definition sub_size :: "int \<Rightarrow> int" where
  "sub_size n = int (isqrt_from (nat n) (nat n))"

text \<open>\<open>range(a, b, s)\<close>: a zero step raises \<open>ValueError\<close>.\<close>

definition range_step :: "int \<Rightarrow> int \<Rightarrow> int \<Rightarrow> error + int list" where
  "range_step a b s =
     (if s = 0 then Inl ValueError
      else if s > 0 then Inr [a + int k * s. k \<leftarrow> [0..<nat ((b - a + s - 1) div s)]]
      else Inr [a + int k * s. k \<leftarrow> [0..<nat ((a - b - s - 1) div (- s))]])"

subsection \<open>The grid in memory\<close>

text \<open>
  The grid is a list of row objects and the decoder assigns to \<open>solution[r][c]\<close>, so
  rows live in a store: a row is an address, the store maps it to the row's contents,
  and the grid is the list of its rows' addresses.  The outer list is never assigned to.
  \<open>view\<close> is what a holder of the grid reads in a store.
\<close>

type_synonym ref = nat
type_synonym heap = "ref \<Rightarrow> int list"

definition view :: "heap \<Rightarrow> ref list \<Rightarrow> int list list" where
  "view h g = map h g"

text \<open>\<open>grid[r][c]\<close>.\<close>

definition cell :: "heap \<Rightarrow> ref list \<Rightarrow> int \<Rightarrow> int \<Rightarrow> error + int" where
  "cell h g r c = (case get g r of Inl er \<Rightarrow> Inl er | Inr a \<Rightarrow> get (h a) c)"

text \<open>\<open>solution[r][c] = num\<close>.\<close>

definition set_cell :: "heap \<Rightarrow> ref list \<Rightarrow> int \<Rightarrow> int \<Rightarrow> int \<Rightarrow> error + heap" where
  "set_cell h sol r c num =
     (case get sol r of Inl er \<Rightarrow> Inl er
      | Inr a \<Rightarrow>
          (let j = (if c < 0 then len (h a) + c else c)
           in if 0 \<le> j \<and> j < len (h a) then Inr (h(a := (h a)[nat j := num]))
              else Inl IndexError))"

subsection \<open>The clauses\<close>

text \<open>All cells \<open>(r, c)\<close> in the order of the two nested loops.\<close>

definition cells :: "int \<Rightarrow> (int \<times> int) list" where
  "cells n = [(r, c). r \<leftarrow> range_py 0 n, c \<leftarrow> range_py 0 n]"

definition cell_clauses :: "int \<Rightarrow> int \<Rightarrow> int \<Rightarrow> int list list" where
  "cell_clauses n r c =
     (let clause = [prop_id n r c num. num \<leftarrow> range_py 1 (n + 1)]
      in clause # [[- (clause ! nat i), - (clause ! nat j)].
                   i \<leftarrow> range_py 0 n, j \<leftarrow> range_py (i + 1) n])"

definition row_clauses :: "int \<Rightarrow> int list list" where
  "row_clauses n =
     [[prop_id n r c num. c \<leftarrow> range_py 0 n]. r \<leftarrow> range_py 0 n, num \<leftarrow> range_py 1 (n + 1)]"

definition col_clauses :: "int \<Rightarrow> int list list" where
  "col_clauses n =
     [[prop_id n r c num. r \<leftarrow> range_py 0 n]. c \<leftarrow> range_py 0 n, num \<leftarrow> range_py 1 (n + 1)]"

definition subgrid_clauses :: "int \<Rightarrow> int \<Rightarrow> error + int list list" where
  "subgrid_clauses n sub_n =
     (case range_step 0 n sub_n of Inl er \<Rightarrow> Inl er
      | Inr starts \<Rightarrow>
          Inr [[prop_id n r c num.
                r \<leftarrow> range_py br (br + sub_n), c \<leftarrow> range_py bc (bc + sub_n)].
               br \<leftarrow> starts, bc \<leftarrow> starts, num \<leftarrow> range_py 1 (n + 1)])"

fun given_clauses :: "heap \<Rightarrow> ref list \<Rightarrow> int \<Rightarrow> (int \<times> int) list \<Rightarrow> error + int list list" where
  "given_clauses h g n [] = Inr []"
| "given_clauses h g n ((r, c) # cs) =
     (case cell h g r c of Inl er \<Rightarrow> Inl er
      | Inr v \<Rightarrow>
          (case given_clauses h g n cs of Inl er \<Rightarrow> Inl er
           | Inr rest \<Rightarrow> Inr (if v \<noteq> 0 then [prop_id n r c v] # rest else rest)))"

definition sudoku_cnf :: "heap \<Rightarrow> ref list \<Rightarrow> error + int list list" where
  "sudoku_cnf h g =
     (let n = len g; sub_n = sub_size n in
      case subgrid_clauses n sub_n of Inl er \<Rightarrow> Inl er
      | Inr subgrids \<Rightarrow>
          (case given_clauses h g n (cells n) of Inl er \<Rightarrow> Inl er
           | Inr givens \<Rightarrow>
               Inr (concat [cell_clauses n r c. (r, c) \<leftarrow> cells n]
                    @ row_clauses n @ col_clauses n @ subgrids @ givens)))"

subsection \<open>The decoding loop and \<open>solve_sudoku\<close>\<close>

text \<open>The innermost loop: the first \<open>num\<close> whose literal is positive in the model.\<close>

fun find_num :: "int list \<Rightarrow> int \<Rightarrow> int \<Rightarrow> int \<Rightarrow> int list \<Rightarrow> error + int option" where
  "find_num model n r c [] = Inr None"
| "find_num model n r c (num # nums) =
     (case get model (prop_id n r c num - 1) of Inl er \<Rightarrow> Inl er
      | Inr v \<Rightarrow> if v > 0 then Inr (Some num) else find_num model n r c nums)"

text \<open>The value that loop selects for a cell, if any.\<close>

definition first_true :: "int list \<Rightarrow> int \<Rightarrow> int \<Rightarrow> int \<Rightarrow> int option" where
  "first_true model n r c =
     find (\<lambda>num. var_true model (prop_id n r c num)) (range_py 1 (n + 1))"

fun decode_cells ::
  "int list \<Rightarrow> int \<Rightarrow> ref list \<Rightarrow> heap \<Rightarrow> (int \<times> int) list \<Rightarrow> error + heap" where
  "decode_cells model n sol h [] = Inr h"
| "decode_cells model n sol h ((r, c) # cs) =
     (case find_num model n r c (range_py 1 (n + 1)) of Inl er \<Rightarrow> Inl er
      | Inr None \<Rightarrow> decode_cells model n sol h cs
      | Inr (Some num) \<Rightarrow>
          (case set_cell h sol r c num of Inl er \<Rightarrow> Inl er
           | Inr h' \<Rightarrow> decode_cells model n sol h' cs))"

text \<open>
  The solver is an external collaborator.  The statement
  \<open>with Solver(name='glucose3', bootstrap_with=cnf.clauses)\<close> hands it the clause
  list, and \<open>solve()\<close> and \<open>get_model()\<close> ask for the answer.  The call either
  raises (PySAT raises \<open>ValueError\<close> for a clause list that holds the literal 0,
  and \<open>OverflowError\<close> or \<open>SystemError\<close> for one that holds a literal too large
  for a C integer) or answers \<open>None\<close> (unsatisfiable) or a model.  Nothing in
  \<open>solve_sudoku\<close> catches an exception, so one raised by the solver is raised by
  \<open>solve_sudoku\<close>.

  \<open>solve_sudoku\<close> takes the store and the grid and returns the store after the call
  with the returned list.  \<open>solution = grid\<close> binds a second name to the same list.
\<close>

definition solve_sudoku ::
  "(int list list \<Rightarrow> error + int list option) \<Rightarrow> heap \<Rightarrow> ref list
     \<Rightarrow> error + heap \<times> ref list" where
  "solve_sudoku solver h g =
     (let n = len g in
      case sudoku_cnf h g of Inl er \<Rightarrow> Inl er
      | Inr cnf \<Rightarrow>
          (case solver cnf of Inl er \<Rightarrow> Inl er
           | Inr answer \<Rightarrow>
               (let solution = g in
                case answer of None \<Rightarrow> Inr (h, solution)
                | Some model \<Rightarrow>
                    (case decode_cells model n solution h (cells n) of Inl er \<Rightarrow> Inl er
                     | Inr h' \<Rightarrow> Inr (h', solution)))))"

subsection \<open>The rules of the puzzle\<close>

text \<open>
  A list holds each value of \<open>1..n\<close> exactly once; the rows, the columns and the
  \<open>s\<close>-by-\<open>s\<close> subgrids of a grid of values.
\<close>

definition exactly_once :: "int list \<Rightarrow> int \<Rightarrow> bool" where
  "exactly_once xs n = (\<forall>v \<in> set (range_py 1 (n + 1)). count_list xs v = 1)"

definition rows_ok :: "int list list \<Rightarrow> int \<Rightarrow> bool" where
  "rows_ok G n =
     (\<forall>r \<in> set (range_py 0 n). exactly_once [G ! nat r ! nat c. c \<leftarrow> range_py 0 n] n)"

definition cols_ok :: "int list list \<Rightarrow> int \<Rightarrow> bool" where
  "cols_ok G n =
     (\<forall>c \<in> set (range_py 0 n). exactly_once [G ! nat r ! nat c. r \<leftarrow> range_py 0 n] n)"

definition subgrids_ok :: "int list list \<Rightarrow> int \<Rightarrow> int \<Rightarrow> bool" where
  "subgrids_ok G n s =
     (\<forall>i \<in> set (range_py 0 s). \<forall>j \<in> set (range_py 0 s).
        exactly_once [G ! nat r ! nat c.
                      r \<leftarrow> range_py (i * s) (i * s + s), c \<leftarrow> range_py (j * s) (j * s + s)] n)"


section \<open>Basic facts about ranges and indexing\<close>

lemma set_range_py [simp]: "set (range_py a b) = {a..<b}"
  by (auto simp: range_py_def)

lemma distinct_range_py [simp]: "distinct (range_py a b)"
  by (simp add: range_py_def)

lemma length_range_py [simp]: "length (range_py a b) = nat (b - a)"
  by (simp add: range_py_def)

lemma nth_range_py [simp]: "k < nat (b - a) \<Longrightarrow> range_py a b ! k = a + int k"
  by (simp add: range_py_def)

lemma get_in_set: "get xs i = Inr v \<Longrightarrow> v \<in> set xs"
  by (auto simp: get_def Let_def len_def split: if_splits)

lemma get_nonneg [simp]: "0 \<le> i \<Longrightarrow> i < len xs \<Longrightarrow> get xs i = Inr (xs ! nat i)"
  by (simp add: get_def)

section \<open>Bounds checks of the variable identifiers\<close>

text \<open>
  Claim C10, as amended.  The four methods of the Sokoban encoder raise
  \<open>AssertionError\<close> whenever a coordinate, an action code, a box index or a time is
  out of bounds.  \<open>prop\<close> of the Sudoku solver has no check: for every row, column
  and value, in the grid or not, it returns \<open>(row * n + col) * n + num\<close>.
\<close>

theorem var_ids_fail_fast:
  "(\<not> (0 \<le> x \<and> x < N e \<and> 0 \<le> y \<and> y < M e) \<longrightarrow> var_goal e x y = Inl AssertionError)
   \<and> (\<not> (0 \<le> x \<and> x < N e \<and> 0 \<le> y \<and> y < M e \<and> 0 \<le> t \<and> t < T e)
        \<longrightarrow> var_player e x y t = Inl AssertionError)
   \<and> (\<not> (1 \<le> num \<and> num \<le> 9 \<and> 0 \<le> t \<and> t < T e) \<longrightarrow> var_move e num t = Inl AssertionError)
   \<and> (\<not> (1 \<le> b \<and> b \<le> num_boxes e \<and> 0 \<le> x \<and> x < N e \<and> 0 \<le> y \<and> y < M e
           \<and> 0 \<le> t \<and> t < T e) \<longrightarrow> var_box e b x y t = Inl AssertionError)
   \<and> prop_id n r c v = (r * n + c) * n + v"
  by (auto simp: var_goal_def var_player_def var_move_def var_box_def prop_id_def)

text \<open>
  The amended claim at a 2-by-3 encoder with one box and two time steps: row 2, action
  code 10, box 2 and time 2 are each out of bounds.
\<close>

theorem var_ids_fail_fast_witness:
  "var_goal \<lparr>grid = [], T = 2, N = 2, M = 3, goals = [], boxes = [], walls = [],
             player_start = None, num_boxes = 1\<rparr> 2 0 = Inl AssertionError
   \<and> var_player \<lparr>grid = [], T = 2, N = 2, M = 3, goals = [], boxes = [], walls = [],
             player_start = None, num_boxes = 1\<rparr> 2 0 2 = Inl AssertionError
   \<and> var_move \<lparr>grid = [], T = 2, N = 2, M = 3, goals = [], boxes = [], walls = [],
             player_start = None, num_boxes = 1\<rparr> 10 2 = Inl AssertionError
   \<and> var_box \<lparr>grid = [], T = 2, N = 2, M = 3, goals = [], boxes = [], walls = [],
             player_start = None, num_boxes = 1\<rparr> 2 2 0 2 = Inl AssertionError
   \<and> prop_id 4 9 9 9 = (9 * 4 + 9) * 4 + 9"
  using var_ids_fail_fast [where e = "\<lparr>grid = [], T = 2, N = 2, M = 3, goals = [],
          boxes = [], walls = [], player_start = None, num_boxes = 1\<rparr>"
        and x = 2 and y = 0 and t = 2 and num = 10 and b = 2 and n = 4 and r = 9 and c = 9
        and v = 9]
  by simp

text \<open>
  Claim C10 as stated fails for \<open>prop\<close>: in a 4-by-4 grid, row 9, column 9 and
  value 9 are all out of range, and the call returns the integer 189.
\<close>

theorem prop_unchecked: "\<not> (9 < (4::int)) \<and> prop_id 4 9 9 9 = 189"
  by (simp add: prop_id_def)

section \<open>Rows outside the grid are not written\<close>

lemma set_cell_frame:
  "set_cell h sol r c num = Inr h' \<Longrightarrow> a \<notin> set sol \<Longrightarrow> h' a = h a"
  by (auto simp: set_cell_def Let_def split: sum.splits if_splits dest: get_in_set)

lemma decode_cells_frame:
  "decode_cells model n sol h cs = Inr h' \<Longrightarrow> a \<notin> set sol \<Longrightarrow> h' a = h a"
proof (induction cs arbitrary: h)
  case Nil
  then show ?case by simp
next
  case (Cons rc cs)
  obtain r c where rc: "rc = (r, c)" by (cases rc)
  show ?case
  proof (cases "find_num model n r c (range_py 1 (n + 1))")
    case (Inl er)
    with Cons.prems rc show ?thesis by simp
  next
    case (Inr found)
    show ?thesis
    proof (cases found)
      case None
      with Cons Inr rc show ?thesis by simp
    next
      case (Some num)
      with Cons.prems Inr rc obtain h1 where
        h1: "set_cell h sol r c num = Inr h1" and rest: "decode_cells model n sol h1 cs = Inr h'"
        by (auto split: sum.splits)
      from Cons.IH [OF rest Cons.prems(2)] set_cell_frame [OF h1 Cons.prems(2)]
      show ?thesis by simp
    qed
  qed
qed

section \<open>Construction of the Sokoban encoder\<close>

lemma parse_cell_fields:
  assumes "parse_cell e x y = Inr e'"
  shows "grid e' = grid e \<and> N e' = N e \<and> M e' = M e \<and> T e' = T e \<and> num_boxes e' = num_boxes e
         \<and> set (boxes e') \<subseteq> insert (x, y) (set (boxes e))
         \<and> set (walls e') \<subseteq> insert (x, y) (set (walls e))
         \<and> set (goals e') \<subseteq> insert (x, y) (set (goals e))
         \<and> (player_start e' = player_start e \<or> player_start e' = Some (x, y))"
  using assms by (auto simp: parse_cell_def split: sum.splits if_splits)

lemma parse_cells_fields:
  assumes "parse_cells e cs = Inr e'"
  shows "grid e' = grid e \<and> N e' = N e \<and> M e' = M e \<and> T e' = T e \<and> num_boxes e' = num_boxes e
         \<and> set (boxes e') \<subseteq> set (boxes e) \<union> set cs
         \<and> set (walls e') \<subseteq> set (walls e) \<union> set cs
         \<and> set (goals e') \<subseteq> set (goals e) \<union> set cs
         \<and> (player_start e' = player_start e \<or> player_start e' \<in> Some ` set cs)"
  using assms
proof (induction cs arbitrary: e)
  case Nil
  then show ?case by simp
next
  case (Cons xy cs)
  obtain x y where xy: "xy = (x, y)" by (cases xy)
  from Cons.prems xy obtain e1 where
    e1: "parse_cell e x y = Inr e1" and rest: "parse_cells e1 cs = Inr e'"
    by (auto split: sum.splits)
  from parse_cell_fields [OF e1] Cons.IH [OF rest] xy show ?case
    by auto
qed

lemma parse_cell_no_player:
  assumes "parse_cell e x y = Inr e'" and "\<forall>row \<in> set (grid e). ''P'' \<notin> set row"
  shows "player_start e' = player_start e"
proof -
  from assms(1) obtain row c where
    row: "get (grid e) x = Inr row" and c: "get row y = Inr c"
    by (auto simp: parse_cell_def split: sum.splits)
  from get_in_set [OF row] get_in_set [OF c] assms(2) have "c \<noteq> ''P''" by auto
  with assms(1) row c show ?thesis
    by (auto simp: parse_cell_def split: if_splits)
qed

lemma parse_cells_no_player:
  assumes "parse_cells e cs = Inr e'" and "\<forall>row \<in> set (grid e). ''P'' \<notin> set row"
  shows "player_start e' = player_start e"
  using assms
proof (induction cs arbitrary: e)
  case Nil
  then show ?case by simp
next
  case (Cons xy cs)
  obtain x y where xy: "xy = (x, y)" by (cases xy)
  from Cons.prems xy obtain e1 where
    e1: "parse_cell e x y = Inr e1" and rest: "parse_cells e1 cs = Inr e'"
    by (auto split: sum.splits)
  from parse_cell_fields [OF e1] have "grid e1 = grid e" by simp
  with Cons.IH [OF rest] Cons.prems(2) parse_cell_no_player [OF e1 Cons.prems(2)]
  show ?case by simp
qed

lemma parse_cells_succeeds:
  assumes "\<forall>(x, y) \<in> set cs. 0 \<le> x \<and> x < len (grid e) \<and> 0 \<le> y \<and> y < len (grid e ! nat x)"
  shows "\<exists>e'. parse_cells e cs = Inr e'"
  using assms
proof (induction cs arbitrary: e)
  case Nil
  then show ?case by simp
next
  case (Cons xy cs)
  obtain x y where xy: "xy = (x, y)" by (cases xy)
  with Cons.prems have b: "0 \<le> x" "x < len (grid e)" "0 \<le> y" "y < len (grid e ! nat x)"
    by auto
  then obtain e1 where e1: "parse_cell e x y = Inr e1"
    by (simp add: parse_cell_def)
  from parse_cell_fields [OF e1] have "grid e1 = grid e" by simp
  with Cons.prems have "\<forall>(x, y) \<in> set cs. 0 \<le> x \<and> x < len (grid e1) \<and> 0 \<le> y \<and> y < len (grid e1 ! nat x)"
    by simp
  from Cons.IH [OF this] e1 xy show ?case by simp
qed

lemma encode_no_player: "player_start e = None \<Longrightarrow> encode e = Inl TypeError"
  by (simp add: encode_def)

lemma init_Inr:
  assumes "init g k = Inr e"
  shows "\<exists>row0 e1. get g 0 = Inr row0
     \<and> parse_cells \<lparr>grid = g, T = k + 1, N = len g, M = len row0, goals = [],
                         boxes = [], walls = [], player_start = None, num_boxes = 0\<rparr>
          [(x, y). x \<leftarrow> range_py 0 (len g), y \<leftarrow> range_py 0 (len row0)] = Inr e1
     \<and> e = e1\<lparr>num_boxes := len (boxes e1)\<rparr>"
  using assms by (auto simp: init_def parse_grid_def split: sum.splits)

text \<open>
  Claim C9, as amended.  For a grid with no \<open>'P'\<close> cell, construction does not
  fail because of it: whenever the constructor returns, \<open>player_start\<close> is still
  \<open>None\<close>, and the failure comes later, as the \<open>TypeError\<close> of the first
  statement of \<open>encode\<close>.  The constructor does return on every non-empty
  rectangular grid.
\<close>

theorem no_player_fails_in_encode:
  assumes "\<forall>row \<in> set g. ''P'' \<notin> set row"
  shows "(\<forall>e. init g k = Inr e \<longrightarrow> player_start e = None \<and> encode e = Inl TypeError)
         \<and> (g \<noteq> [] \<and> (\<forall>row \<in> set g. length row = length (hd g)) \<longrightarrow> (\<exists>e. init g k = Inr e))"
proof (intro conjI allI impI)
  fix e assume e: "init g k = Inr e"
  from init_Inr [OF this] obtain row0 e1 where
    g0: "get g 0 = Inr row0" and
    p: "parse_cells \<lparr>grid = g, T = k + 1, N = len g, M = len row0, goals = [],
                         boxes = [], walls = [], player_start = None, num_boxes = 0\<rparr>
          [(x, y). x \<leftarrow> range_py 0 (len g), y \<leftarrow> range_py 0 (len row0)] = Inr e1"
    and ee: "e = e1\<lparr>num_boxes := len (boxes e1)\<rparr>"
    by (elim exE conjE)
  from parse_cells_no_player [OF p] assms have "player_start e1 = None" by simp
  with ee show "player_start e = None" by simp
  then show "encode e = Inl TypeError" by (rule encode_no_player)
next
  assume r: "g \<noteq> [] \<and> (\<forall>row \<in> set g. length row = length (hd g))"
  then have g0: "get g 0 = Inr (hd g)"
    by (cases g) (auto simp: get_def len_def)
  let ?e0 = "\<lparr>grid = g, T = k + 1, N = len g, M = len (hd g), goals = [],
                         boxes = [], walls = [], player_start = None, num_boxes = 0\<rparr>"
  have inside: "0 \<le> x \<and> x < len g \<and> 0 \<le> y \<and> y < len (g ! nat x)"
    if "x \<in> {0..<len g}" and "y \<in> {0..<len (hd g)}" for x y
  proof -
    from that have "nat x < length g" by (simp add: len_def nat_less_iff)
    then have "g ! nat x \<in> set g" by simp
    with r have "length (g ! nat x) = length (hd g)" by blast
    with that show ?thesis by (simp add: len_def)
  qed
  have "\<forall>(x, y) \<in> set [(x, y). x \<leftarrow> range_py 0 (len g), y \<leftarrow> range_py 0 (len (hd g))].
           0 \<le> x \<and> x < len (grid ?e0) \<and> 0 \<le> y \<and> y < len (grid ?e0 ! nat x)"
  proof (clarify)
    fix x y
    assume "(x, y) \<in> set [(x, y). x \<leftarrow> range_py 0 (len g), y \<leftarrow> range_py 0 (len (hd g))]"
    then have "x \<in> {0..<len g}" and "y \<in> {0..<len (hd g)}" by auto
    from inside [OF this] show "0 \<le> x \<and> x < len (grid ?e0) \<and> 0 \<le> y \<and> y < len (grid ?e0 ! nat x)"
      by simp
  qed
  from parse_cells_succeeds [OF this] obtain e1 where "parse_cells ?e0
      [(x, y). x \<leftarrow> range_py 0 (len g), y \<leftarrow> range_py 0 (len (hd g))] = Inr e1" by blast
  with g0 show "\<exists>e. init g k = Inr e"
    by (simp add: init_def parse_grid_def)
qed

text \<open>The amended claim at the 1-by-1 grid holding one empty cell.\<close>

theorem no_player_fails_in_encode_witness:
  "''P'' \<notin> set [''.''] \<and> init [[''.'']] 0 = Inr \<lparr>grid = [[''.'']], T = 1, N = 1, M = 1, goals = [],
       boxes = [], walls = [], player_start = None, num_boxes = 0\<rparr>
   \<and> encode \<lparr>grid = [[''.'']], T = 1, N = 1, M = 1, goals = [],
       boxes = [], walls = [], player_start = None, num_boxes = 0\<rparr> = Inl TypeError"
proof -
  have h: "\<forall>row \<in> set [[''.'']]. ''P'' \<notin> set row" by simp
  have i: "init [[''.'']] 0 = Inr \<lparr>grid = [[''.'']], T = 1, N = 1, M = 1, goals = [],
       boxes = [], walls = [], player_start = None, num_boxes = 0\<rparr>"
    by code_simp
  from no_player_fails_in_encode [OF h, of 0] i show ?thesis by simp
qed

text \<open>
  Claim C9 as stated fails at the same grid: construction succeeds with
  \<open>player_start\<close> unset, and the error is raised by \<open>encode\<close>.
\<close>

theorem no_player_constructs:
  "init [[''.'']] 0 = Inr \<lparr>grid = [[''.'']], T = 1, N = 1, M = 1, goals = [],
       boxes = [], walls = [], player_start = None, num_boxes = 0\<rparr>
   \<and> encode \<lparr>grid = [[''.'']], T = 1, N = 1, M = 1, goals = [],
       boxes = [], walls = [], player_start = None, num_boxes = 0\<rparr> = Inl TypeError"
proof
  show "init [[''.'']] 0 = Inr \<lparr>grid = [[''.'']], T = 1, N = 1, M = 1, goals = [],
       boxes = [], walls = [], player_start = None, num_boxes = 0\<rparr>"
    by code_simp
  show "encode \<lparr>grid = [[''.'']], T = 1, N = 1, M = 1, goals = [],
       boxes = [], walls = [], player_start = None, num_boxes = 0\<rparr> = Inl TypeError"
    by (simp add: encode_def)
qed

section \<open>Decoding the action sequence\<close>

lemma decode_loop_eq:
  assumes "\<forall>i \<in> set idxs. 0 \<le> i \<and> i < len model"
  shows "decode_loop model base idxs moves =
           Inr (moves @ concat [if model ! nat i > 0 then symbol ((i - base) mod 9) else []. i \<leftarrow> idxs])"
  using assms by (induction idxs arbitrary: moves) auto

lemma range_py_append:
  "a \<le> b \<Longrightarrow> b \<le> c \<Longrightarrow> range_py a c = range_py a b @ range_py b c"
  unfolding range_py_def using upto_split2 [of a "b - 1" "c - 1"]
  by (cases "a = b") (auto simp: upto_split2)

lemma range_py_steps:
  "range_py a (a + 9 * int n) =
     concat [range_py (a + 9 * t) (a + 9 * t + 9). t \<leftarrow> range_py 0 (int n)]"
proof (induction n)
  case 0
  then show ?case by (simp add: range_py_def)
next
  case (Suc n)
  have "range_py a (a + 9 * int (Suc n)) = range_py a (a + 9 * int n) @ range_py (a + 9 * int n) (a + 9 * int n + 9)"
    using range_py_append [of a "a + 9 * int n" "a + 9 * int (Suc n)"] by (simp add: algebra_simps)
  moreover have "range_py 0 (int (Suc n)) = range_py 0 (int n) @ [int n]"
    using range_py_append [of 0 "int n" "int (Suc n)"] by (simp add: range_py_def)
  ultimately show ?case using Suc by simp
qed

lemma range_py_shift: "range_py (a + d) (b + d) = map (\<lambda>i. i + d) (range_py a b)"
  by (rule nth_equalityI) simp_all

lemma concat_map_guard:
  "concat (map f (concat (map (\<lambda>x. if P x then [x] else []) xs))) =
     concat (map (\<lambda>x. if P x then f x else []) xs)"
  by (induction xs) auto

lemma concat_map_nested:
  "concat (map g (concat (map h ts))) = concat (map (\<lambda>t. concat (map g (h t))) ts)"
  by (induction ts) auto

lemma true_actions_step:
  assumes "0 \<le> t" "t < T e" "0 \<le> (T e + 1) * N e * M e"
    and "(T e + 1) * N e * M e + 9 * T e \<le> len model"
  shows "concat [if model ! nat i > 0 then symbol ((i - (T e + 1) * N e * M e) mod 9) else [].
                 i \<leftarrow> range_py ((T e + 1) * N e * M e + 9 * t) ((T e + 1) * N e * M e + 9 * t + 9)]
         = concat [symbol (num - 1). num \<leftarrow> true_actions model e t]"
proof -
  let ?base = "(T e + 1) * N e * M e"
  let ?d = "?base + 9 * t - 1"
  have vm: "var_move e num t = Inr (?base + 9 * t + num)" if "1 \<le> num" "num \<le> 9" for num
    using that assms by (simp add: var_move_def mult.commute mult.left_commute)
  have at: "action_true model e num t = (model ! nat (num + ?d) > 0)"
    if "1 \<le> num" "num \<le> 9" for num
  proof -
    have idx: "nat (?base + 9 * t + num - 1) = nat (num + ?d)" by simp
    have "1 \<le> ?base + 9 * t + num" "?base + 9 * t + num \<le> len model"
      using that assms by simp_all
    then show ?thesis
      by (simp only: action_true_def var_true_def vm [OF that] idx sum.case simp_thms)
  qed
  have md: "(num + ?d - ?base) mod 9 = num - 1" if "1 \<le> num" "num \<le> 9" for num
  proof -
    have "num + ?d - ?base = (num - 1) + t * 9" by simp
    then have "(num + ?d - ?base) mod 9 = (num - 1) mod 9" by (simp only: mod_mult_self1)
    with that show ?thesis by simp
  qed
  have sh: "range_py (?base + 9 * t) (?base + 9 * t + 9) = map (\<lambda>num. num + ?d) (range_py 1 10)"
    using range_py_shift [of 1 ?d 10] by (simp add: algebra_simps)
  have "concat [if model ! nat i > 0 then symbol ((i - ?base) mod 9) else [].
                 i \<leftarrow> range_py (?base + 9 * t) (?base + 9 * t + 9)]
        = concat (map (\<lambda>num. if model ! nat (num + ?d) > 0 then symbol ((num + ?d - ?base) mod 9) else [])
                    (range_py 1 10))"
    unfolding sh by (simp only: map_map comp_def)
  also have "\<dots> = concat (map (\<lambda>num. if action_true model e num t then symbol (num - 1) else [])
                    (range_py 1 10))"
  proof (rule arg_cong [where f = concat], rule map_cong [OF refl])
    fix num assume "num \<in> set (range_py 1 10)"
    then have n: "1 \<le> num" "num \<le> 9" by auto
    show "(if model ! nat (num + ?d) > 0 then symbol ((num + ?d - ?base) mod 9) else [])
          = (if action_true model e num t then symbol (num - 1) else [])"
      by (simp only: at [OF n] md [OF n])
  qed
  also have "\<dots> = concat [symbol (num - 1). num \<leftarrow> true_actions model e t]"
    by (simp add: true_actions_def concat_map_guard)
  finally show ?thesis .
qed

lemma decode_eq:
  assumes "0 \<le> T e" "0 \<le> N e" "0 \<le> M e"
    and "(T e + 1) * N e * M e + 9 * T e \<le> len model"
  shows "decode model e =
           Inr (concat [concat [symbol (num - 1). num \<leftarrow> true_actions model e t].
                        t \<leftarrow> range_py 0 (T e)])"
proof -
  let ?base = "(T e + 1) * N e * M e"
  have b0: "0 \<le> ?base" using assms by simp
  have inr: "\<forall>i \<in> set (range_py ?base (?base + 9 * T e)). 0 \<le> i \<and> i < len model"
    using assms(4) b0 by auto
  have steps: "range_py ?base (?base + 9 * T e) =
     concat [range_py (?base + 9 * t) (?base + 9 * t + 9). t \<leftarrow> range_py 0 (T e)]"
    using range_py_steps [of ?base "nat (T e)"] assms(1) by simp
  have "decode model e = Inr (concat [if model ! nat i > 0 then symbol ((i - ?base) mod 9) else [].
                                      i \<leftarrow> range_py ?base (?base + 9 * T e)])"
    using decode_loop_eq [OF inr, of ?base "[]"] by (simp add: decode_def Let_def)
  also have "concat [if model ! nat i > 0 then symbol ((i - ?base) mod 9) else [].
                                      i \<leftarrow> range_py ?base (?base + 9 * T e)]
     = concat [concat [if model ! nat i > 0 then symbol ((i - ?base) mod 9) else [].
                       i \<leftarrow> range_py (?base + 9 * t) (?base + 9 * t + 9)]. t \<leftarrow> range_py 0 (T e)]"
    unfolding steps by (simp only: concat_map_nested)
  also have "\<dots> = concat [concat [symbol (num - 1). num \<leftarrow> true_actions model e t].
                        t \<leftarrow> range_py 0 (T e)]"
  proof (rule arg_cong [where f = concat], rule map_cong [OF refl])
    fix t assume "t \<in> set (range_py 0 (T e))"
    then have "0 \<le> t" "t < T e" by auto
    from true_actions_step [OF this b0 assms(4)]
    show "concat [if model ! nat i > 0 then symbol ((i - ?base) mod 9) else [].
                       i \<leftarrow> range_py (?base + 9 * t) (?base + 9 * t + 9)]
          = concat [symbol (num - 1). num \<leftarrow> true_actions model e t]" .
  qed
  finally show ?thesis .
qed

lemma guard_filter: "concat (map (\<lambda>x. if P x then [x] else []) xs) = filter P xs"
  by (induction xs) auto

lemma filter_single:
  assumes "distinct xs" "i \<in> set xs" "P i" "\<forall>j \<in> set xs. P j \<longrightarrow> j = i"
  shows "filter P xs = [i]"
proof -
  have "filter P xs = filter (\<lambda>j. j = i) xs"
    by (rule filter_cong [OF refl]) (use assms in blast)
  also have "\<dots> = [i]"
    using assms(1,2) by (induction xs) (auto simp: filter_empty_conv)
  finally show ?thesis .
qed

lemma symbol_direction: "1 \<le> num \<Longrightarrow> num \<le> 9 \<Longrightarrow> symbol (num - 1) = direction num"
proof -
  assume "1 \<le> num" "num \<le> 9"
  then have "num = 1 \<or> num = 2 \<or> num = 3 \<or> num = 4 \<or> num = 5 \<or> num = 6 \<or> num = 7
             \<or> num = 8 \<or> num = 9" by arith
  then show ?thesis
    by (elim disjE) (simp_all add: symbol_def direction_def DIRS_def step_dir_def)
qed

lemma holds_pair:
  "0 < a \<Longrightarrow> 0 < b \<Longrightarrow> holds \<sigma> [neg (Inr a), neg (Inr b)] = (\<not> \<sigma> a \<or> \<not> \<sigma> b)"
  by (simp add: holds_def neg_def lit_holds_def)

lemma true_actions_unique:
  assumes dims: "0 \<le> N e" "0 \<le> M e" and t: "0 \<le> t" "t < T e"
    and one: "\<forall>c \<in> set (one_move e t). holds (var_true model) c"
  shows "\<exists>num. 1 \<le> num \<and> num \<le> 9 \<and> true_actions model e t = [num]"
proof -
  let ?base = "(T e + 1) * M e * N e"
  have b0: "0 \<le> ?base" using dims t by simp
  have vm: "var_move e num t = Inr (?base + 9 * t + num)" if "1 \<le> num" "num \<le> 9" for num
    using that t by (simp add: var_move_def)
  have pos: "0 < ?base + 9 * t + num" if "1 \<le> num" for num
    using that b0 t by simp
  have at: "action_true model e num t = var_true model (?base + 9 * t + num)"
    if "1 \<le> num" "num \<le> 9" for num
    using vm [OF that] by (simp add: action_true_def)
  have total: "[var_move e i t. i \<leftarrow> range_py 1 10] \<in> set (one_move e t)"
    by (simp add: one_move_def)
  have pair: "[neg (var_move e i t), neg (var_move e j t)] \<in> set (one_move e t)"
    if "1 \<le> i" "i < j" "j \<le> 9" for i j
  proof -
    have "[neg (var_move e i t), neg (var_move e j t)]
            \<in> (\<Union>i \<in> {1..<10}. (\<lambda>j. [neg (var_move e i t), neg (var_move e j t)]) ` {i + 1..<10})"
      by (rule UN_I [of i]) (use that in auto)
    then show ?thesis by (simp add: one_move_def)
  qed
  from one total have "holds (var_true model) [var_move e i t. i \<leftarrow> range_py 1 10]" by blast
  then obtain i where i0: "i \<in> {1..<10}"
    and hi: "case var_move e i t of Inl er \<Rightarrow> False | Inr v \<Rightarrow> lit_holds (var_true model) v"
    unfolding holds_def by auto
  from i0 have i: "1 \<le> i" "i \<le> 9" by auto
  from hi have ti: "action_true model e i t"
    using pos [OF i(1)] by (simp add: vm [OF i] at [OF i] lit_holds_def)
  have uniq: "j = i" if j: "1 \<le> j" "j \<le> 9" and tj: "action_true model e j t" for j
  proof (rule ccontr)
    assume ne: "j \<noteq> i"
    show False
    proof (cases "i < j")
      case True
      from one pair [OF i(1) True j(2)] have "holds (var_true model) [neg (var_move e i t), neg (var_move e j t)]"
        by blast
      with ti tj show False
        by (simp only: vm [OF i] vm [OF j] holds_pair [OF pos [OF i(1)] pos [OF j(1)]]
                       holds_pair [OF pos [OF j(1)] pos [OF i(1)]] at [OF i] at [OF j] simp_thms)
    next
      case False
      with ne have lt: "j < i" by simp
      from one pair [OF j(1) lt i(2)] have "holds (var_true model) [neg (var_move e j t), neg (var_move e i t)]"
        by blast
      with ti tj show False
        by (simp only: vm [OF i] vm [OF j] holds_pair [OF pos [OF i(1)] pos [OF j(1)]]
                       holds_pair [OF pos [OF j(1)] pos [OF i(1)]] at [OF i] at [OF j] simp_thms)
    qed
  qed
  have "filter (\<lambda>num. action_true model e num t) (range_py 1 10) = [i]"
  proof (rule filter_single)
    show "distinct (range_py 1 10)" by simp
    show "i \<in> set (range_py 1 10)" using i by simp
    show "action_true model e i t" by (rule ti)
    show "\<forall>j \<in> set (range_py 1 10). action_true model e j t \<longrightarrow> j = i"
    proof (intro ballI impI)
      fix j assume "j \<in> set (range_py 1 10)" and tj: "action_true model e j t"
      then have "1 \<le> j" "j \<le> 9" by auto
      then show "j = i" using tj by (rule uniq)
    qed
  qed
  then have "true_actions model e t = [i]"
    by (simp add: true_actions_def guard_filter)
  with i show ?thesis by blast
qed

lemma concat_concat_map:
  "concat (concat (map (\<lambda>t. map f (h t)) ts)) = concat (map (\<lambda>t. concat (map f (h t))) ts)"
  by (induction ts) auto

text \<open>
  Claim C6.  Let the model cover the action variables and make true every clause of
  the exactly-one-action family and the unit clause forcing the stay at \<open>t = 0\<close>.
  Then every step has exactly one true action code, the one at step 0 is the stay, and
  \<open>decode\<close> returns, for the steps \<open>1 .. T\<close> in increasing order, the direction
  of that step's action: one symbol for a move or a push, none for the stay.  (The
  field \<open>T\<close> of the encoder is the caller's horizon plus one.)
\<close>

theorem decode_directions_in_time_order:
  assumes dims: "0 \<le> N e" "0 \<le> M e"
    and cover: "(T e + 1) * N e * M e + 9 * T e \<le> len model"
    and one: "\<forall>t \<in> set (range_py 0 (T e)). \<forall>c \<in> set (one_move e t). holds (var_true model) c"
    and stay: "holds (var_true model) [var_move e 9 0]"
  shows "decode model e =
           Inr (concat [direction num. t \<leftarrow> range_py 1 (T e), num \<leftarrow> true_actions model e t])
         \<and> true_actions model e 0 = [9]
         \<and> (\<forall>t \<in> set (range_py 0 (T e)).
               \<exists>num. 1 \<le> num \<and> num \<le> 9 \<and> true_actions model e t = [num])"
proof -
  from stay have T0: "0 < T e"
    by (auto simp: holds_def var_move_def split: if_splits)
  have uniq: "\<exists>num. 1 \<le> num \<and> num \<le> 9 \<and> true_actions model e t = [num]"
    if "t \<in> set (range_py 0 (T e))" for t
  proof -
    from that have t: "0 \<le> t" "t < T e" by auto
    from one that have "\<forall>c \<in> set (one_move e t). holds (var_true model) c" by blast
    from true_actions_unique [OF dims t this] show ?thesis .
  qed
  have zero: "true_actions model e 0 = [9]"
  proof -
    from T0 uniq [of 0] obtain num where num: "true_actions model e 0 = [num]" by auto
    have "0 \<le> (T e + 1) * M e * N e" using dims T0 by simp
    with stay T0 have "action_true model e 9 0"
      by (auto simp: holds_def action_true_def var_move_def lit_holds_def split: if_splits)
    then have "9 \<in> set (true_actions model e 0)"
      by (simp add: true_actions_def)
    with num show ?thesis by simp
  qed
  have split: "range_py 0 (T e) = 0 # range_py 1 (T e)"
    using T0 by (simp add: range_py_def upto_rec1)
  have s8: "symbol 8 = []" by (simp add: symbol_def)
  have dir: "concat [symbol (num - 1). num \<leftarrow> true_actions model e t]
             = concat [direction num. num \<leftarrow> true_actions model e t]"
    if "t \<in> set (range_py 1 (T e))" for t
  proof -
    from that have "t \<in> set (range_py 0 (T e))" by auto
    from uniq [OF this] obtain num where "1 \<le> num" "num \<le> 9" "true_actions model e t = [num]"
      by blast
    then show ?thesis by (simp add: symbol_direction)
  qed
  from T0 have "0 \<le> T e" by simp
  from decode_eq [OF this dims cover]
  have "decode model e = Inr (concat [concat [symbol (num - 1). num \<leftarrow> true_actions model e t].
                        t \<leftarrow> range_py 0 (T e)])" .
  also have "concat [concat [symbol (num - 1). num \<leftarrow> true_actions model e t].
                        t \<leftarrow> range_py 0 (T e)]
     = concat [concat [symbol (num - 1). num \<leftarrow> true_actions model e t].
                        t \<leftarrow> range_py 1 (T e)]"
    unfolding split by (simp add: zero s8)
  also have "\<dots> = concat [concat [direction num. num \<leftarrow> true_actions model e t].
                        t \<leftarrow> range_py 1 (T e)]"
    by (rule arg_cong [where f = concat], rule map_cong [OF refl]) (rule dir)
  also have "\<dots> = concat [direction num. t \<leftarrow> range_py 1 (T e), num \<leftarrow> true_actions model e t]"
    by (simp only: concat_concat_map)
  finally show ?thesis using zero uniq by blast
qed

text \<open>
  The claim at a 1-by-1 grid with horizon 2: stay at step 0, push up (code 5) at
  step 1, move right (code 2) at step 2.
\<close>

theorem decode_directions_in_time_order_witness:
  "decode [-1, -2, -3, -4, -5, -6, -7, -8, -9, -10, -11, -12, 13, -14, -15, -16, -17, 18, -19,
           -20, -21, -22, -23, 24, -25, -26, -27, -28, -29, -30, -31]
          \<lparr>grid = [[''P'']], T = 3, N = 1, M = 1, goals = [], boxes = [], walls = [],
             player_start = Some (0, 0), num_boxes = 0\<rparr> = Inr [''U'', ''R'']
   \<and> true_actions [-1, -2, -3, -4, -5, -6, -7, -8, -9, -10, -11, -12, 13, -14, -15, -16, -17, 18,
           -19, -20, -21, -22, -23, 24, -25, -26, -27, -28, -29, -30, -31]
          \<lparr>grid = [[''P'']], T = 3, N = 1, M = 1, goals = [], boxes = [], walls = [],
             player_start = Some (0, 0), num_boxes = 0\<rparr> 0 = [9]"
proof -
  let ?m = "[-1, -2, -3, -4, -5, -6, -7, -8, -9, -10, -11, -12, 13, -14, -15, -16, -17, 18, -19,
           -20, -21, -22, -23, 24, -25, -26, -27, -28, -29, -30, -31 :: int]"
  let ?e = "\<lparr>grid = [[''P'']], T = 3, N = 1, M = 1, goals = [], boxes = [], walls = [],
             player_start = Some (0, 0), num_boxes = 0\<rparr>"
  have dims: "0 \<le> N ?e" "0 \<le> M ?e" by simp_all
  have cover: "(T ?e + 1) * N ?e * M ?e + 9 * T ?e \<le> len ?m" by (simp add: len_def)
  have one: "\<forall>t \<in> set (range_py 0 (T ?e)). \<forall>c \<in> set (one_move ?e t). holds (var_true ?m) c"
    by code_simp
  have stay: "holds (var_true ?m) [var_move ?e 9 0]" by code_simp
  have r: "concat [direction num. t \<leftarrow> range_py 1 (T ?e), num \<leftarrow> true_actions ?m ?e t] = [''U'', ''R'']"
    by code_simp
  from decode_directions_in_time_order [OF dims cover one stay] show ?thesis
    unfolding r by simp
qed
section \<open>Pairing arithmetic\<close>

text \<open>
  Every identifier is a mixed-radix number: \<open>a * C + c\<close> with \<open>0 \<le> c < C\<close>
  determines \<open>a\<close> and \<open>c\<close>, and such numbers fill \<open>0 ..< A * C\<close>.
\<close>

lemma pair_bound:
  fixes a c A C :: int
  assumes "0 \<le> a" "a < A" "0 \<le> c" "c < C"
  shows "0 \<le> a * C + c \<and> a * C + c < A * C"
proof -
  from assms have C0: "0 \<le> C" by simp
  from assms have "a + 1 \<le> A" by simp
  then have "(a + 1) * C \<le> A * C" using C0 by (rule mult_right_mono)
  then have "a * C + C \<le> A * C" by (simp add: algebra_simps)
  with assms show ?thesis by simp
qed

lemma pair_div:
  fixes a c C :: int
  assumes "0 \<le> c" "c < C"
  shows "(a * C + c) div C = a" and "(a * C + c) mod C = c"
  using assms by simp_all

lemma pair_inj:
  fixes a a' c c' C :: int
  assumes "0 \<le> c" "c < C" "0 \<le> c'" "c' < C" "a * C + c = a' * C + c'"
  shows "a = a' \<and> c = c'"
  using pair_div [OF assms(1,2), of a] pair_div [OF assms(3,4), of a'] assms(5) by simp

lemma pair_surj:
  fixes v A C :: int
  assumes "0 < C" "0 \<le> v" "v < A * C"
  shows "\<exists>a c. 0 \<le> a \<and> a < A \<and> 0 \<le> c \<and> c < C \<and> v = a * C + c"
proof (intro exI conjI)
  show "0 \<le> v div C" using assms by (simp add: pos_imp_zdiv_nonneg_iff)
  show "v div C < A"
  proof (rule ccontr)
    assume "\<not> v div C < A"
    then have "A \<le> v div C" by simp
    then have "A * C \<le> v div C * C" using assms(1) by (simp add: mult_right_mono)
    also have "\<dots> \<le> v"
      using pos_mod_sign [OF assms(1), of v] div_mult_mod_eq [of v C] by linarith
    finally show False using assms(3) by simp
  qed
  show "0 \<le> v mod C" using assms by simp
  show "v mod C < C" using assms by simp
  show "v = v div C * C + v mod C" by simp
qed
section \<open>The decoding loop of the Sudoku solver\<close>

lemma prop_id_bounds:
  assumes "0 \<le> r" "r < n" "0 \<le> c" "c < n" "1 \<le> num" "num \<le> n"
  shows "1 \<le> prop_id n r c num \<and> prop_id n r c num \<le> n * n * n"
proof -
  from pair_bound [OF assms(1-4)] have rc: "0 \<le> r * n + c" "r * n + c < n * n" by simp_all
  from assms have "0 \<le> num - 1" "num - 1 < n" by simp_all
  from pair_bound [OF rc this] show ?thesis by (simp add: prop_id_def)
qed

lemma prop_id_inj:
  assumes "0 \<le> c" "c < n" "1 \<le> num" "num \<le> n" "0 \<le> c'" "c' < n" "1 \<le> num'" "num' \<le> n"
    and "prop_id n r c num = prop_id n r' c' num'"
  shows "r = r' \<and> c = c' \<and> num = num'"
proof -
  from assms have b: "0 \<le> num - 1" "num - 1 < n" "0 \<le> num' - 1" "num' - 1 < n" by simp_all
  from assms(9) have "(r * n + c) * n + (num - 1) = (r' * n + c') * n + (num' - 1)"
    by (simp add: prop_id_def)
  from pair_inj [OF b this] have "r * n + c = r' * n + c'" and num: "num = num'" by simp_all
  from pair_inj [OF assms(1,2,5,6) this(1)] num show ?thesis by simp
qed

lemma find_num_eq:
  assumes "\<forall>num \<in> set nums. 1 \<le> prop_id n r c num \<and> prop_id n r c num \<le> len model"
  shows "find_num model n r c nums =
           Inr (find (\<lambda>num. var_true model (prop_id n r c num)) nums)"
  using assms by (induction nums) (auto simp: var_true_def)

lemma set_cell_eq:
  assumes "0 \<le> r" "r < len sol" "0 \<le> c" "c < len (h (sol ! nat r))"
  shows "set_cell h sol r c num = Inr (h(sol ! nat r := (h (sol ! nat r))[nat c := num]))"
  using assms by (simp add: set_cell_def)

lemma decode_cells_eq:
  assumes "distinct sol"
    and "\<forall>(r, c) \<in> set cs. 0 \<le> r \<and> r < len sol \<and> 0 \<le> c \<and> c < len (h (sol ! nat r))"
    and "\<forall>(r, c) \<in> set cs. \<forall>num \<in> set (range_py 1 (n + 1)).
            1 \<le> prop_id n r c num \<and> prop_id n r c num \<le> len model"
  shows "\<exists>h'. decode_cells model n sol h cs = Inr h'
           \<and> (\<forall>a. length (h' a) = length (h a))
           \<and> (\<forall>r c. 0 \<le> r \<and> r < len sol \<and> 0 \<le> c \<and> c < len (h (sol ! nat r)) \<longrightarrow>
                 h' (sol ! nat r) ! nat c =
                   (if (r, c) \<in> set cs
                    then (case first_true model n r c of None \<Rightarrow> h (sol ! nat r) ! nat c
                          | Some v \<Rightarrow> v)
                    else h (sol ! nat r) ! nat c))"
  using assms(2,3)
proof (induction cs arbitrary: h)
  case Nil
  then show ?case by simp
next
  case (Cons rc cs)
  obtain r0 c0 where rc: "rc = (r0, c0)" by (cases rc)
  from Cons.prems(1) rc have b0: "0 \<le> r0" "r0 < len sol" "0 \<le> c0" "c0 < len (h (sol ! nat r0))"
    by auto
  from Cons.prems(2) rc have
    "\<forall>num \<in> set (range_py 1 (n + 1)). 1 \<le> prop_id n r0 c0 num \<and> prop_id n r0 c0 num \<le> len model"
    by auto
  from find_num_eq [OF this]
  have fn: "find_num model n r0 c0 (range_py 1 (n + 1)) = Inr (first_true model n r0 c0)"
    by (simp add: first_true_def)
  define h1 where "h1 = (case first_true model n r0 c0 of None \<Rightarrow> h
                         | Some v \<Rightarrow> h(sol ! nat r0 := (h (sol ! nat r0))[nat c0 := v]))"
  have len1: "length (h1 a) = length (h a)" for a
    by (simp add: h1_def split: option.splits)
  have step: "decode_cells model n sol h (rc # cs) = decode_cells model n sol h1 cs"
    using fn set_cell_eq [where h = h and sol = sol and r = r0 and c = c0, OF b0]
    by (simp add: rc h1_def split: option.splits)
  have p1: "\<forall>(r, c) \<in> set cs. 0 \<le> r \<and> r < len sol \<and> 0 \<le> c \<and> c < len (h1 (sol ! nat r))"
    using Cons.prems(1) by (auto simp: len_def len1)
  have p2: "\<forall>(r, c) \<in> set cs. \<forall>num \<in> set (range_py 1 (n + 1)).
            1 \<le> prop_id n r c num \<and> prop_id n r c num \<le> len model"
    using Cons.prems(2) by auto
  from Cons.IH [OF p1 p2] obtain h' where
    run: "decode_cells model n sol h1 cs = Inr h'"
    and lens: "\<forall>a. length (h' a) = length (h1 a)"
    and vals: "\<forall>r c. 0 \<le> r \<and> r < len sol \<and> 0 \<le> c \<and> c < len (h1 (sol ! nat r)) \<longrightarrow>
                 h' (sol ! nat r) ! nat c =
                   (if (r, c) \<in> set cs
                    then (case first_true model n r c of None \<Rightarrow> h1 (sol ! nat r) ! nat c
                          | Some v \<Rightarrow> v)
                    else h1 (sol ! nat r) ! nat c)"
    by blast
  have first: "h1 (sol ! nat r0) ! nat c0 =
       (case first_true model n r0 c0 of None \<Rightarrow> h (sol ! nat r0) ! nat c0 | Some v \<Rightarrow> v)"
    using b0 by (simp add: h1_def len_def split: option.splits)
  have other: "h1 (sol ! nat r) ! nat c = h (sol ! nat r) ! nat c"
    if "0 \<le> r" "r < len sol" "0 \<le> c" "(r, c) \<noteq> (r0, c0)" for r c
  proof (cases "r = r0")
    case True
    with that have "nat c \<noteq> nat c0" using b0 by auto
    then show ?thesis by (simp add: h1_def True split: option.splits)
  next
    case False
    with that b0 have "nat r \<noteq> nat r0" "nat r < length sol" "nat r0 < length sol"
      by (auto simp: len_def)
    with assms(1) have "sol ! nat r \<noteq> sol ! nat r0" by (simp add: nth_eq_iff_index_eq)
    then show ?thesis by (simp add: h1_def split: option.splits)
  qed
  show ?case
  proof (intro exI conjI allI impI)
    show "decode_cells model n sol h (rc # cs) = Inr h'" using step run by simp
    show "length (h' a) = length (h a)" for a using lens len1 by simp
    fix r c
    assume b: "0 \<le> r \<and> r < len sol \<and> 0 \<le> c \<and> c < len (h (sol ! nat r))"
    then have b1: "0 \<le> r \<and> r < len sol \<and> 0 \<le> c \<and> c < len (h1 (sol ! nat r))"
      by (simp add: len_def len1)
    show "h' (sol ! nat r) ! nat c =
            (if (r, c) \<in> set (rc # cs)
             then (case first_true model n r c of None \<Rightarrow> h (sol ! nat r) ! nat c | Some v \<Rightarrow> v)
             else h (sol ! nat r) ! nat c)"
    proof (cases "(r, c) = (r0, c0)")
      case True
      with vals b1 first show ?thesis
        by (auto simp: rc split: option.splits)
    next
      case False
      with b have eq: "h1 (sol ! nat r) ! nat c = h (sol ! nat r) ! nat c"
        by (intro other) auto
      from vals b1 have "h' (sol ! nat r) ! nat c =
                   (if (r, c) \<in> set cs
                    then (case first_true model n r c of None \<Rightarrow> h1 (sol ! nat r) ! nat c
                          | Some v \<Rightarrow> v)
                    else h1 (sol ! nat r) ! nat c)" by blast
      with False show ?thesis by (auto simp: rc eq split: option.splits)
    qed
  qed
qed

section \<open>Models of the Sudoku clauses\<close>

lemma lit_holds_pos [simp]: "0 < v \<Longrightarrow> lit_holds \<sigma> v = \<sigma> v"
  by (simp add: lit_holds_def)

lemma lit_holds_neg [simp]: "0 < v \<Longrightarrow> lit_holds \<sigma> (- v) = (\<not> \<sigma> v)"
  by (simp add: lit_holds_def)

lemma isqrt_from_square: "s \<le> k \<Longrightarrow> isqrt_from k (s * s) = s"
proof (induction k)
  case 0
  then show ?case by simp
next
  case (Suc k)
  show ?case
  proof (cases "Suc k = s")
    case True
    then show ?thesis by auto
  next
    case False
    with Suc.prems have lt: "s \<le> k" by simp
    then have "s * s < Suc k * Suc k"
      by (meson le_imp_less_Suc mult_strict_mono' zero_le)
    with Suc.IH [OF lt] show ?thesis by simp
  qed
qed

lemma sub_size_square: "0 \<le> s \<Longrightarrow> sub_size (s * s) = s"
proof -
  assume s: "0 \<le> s"
  have "nat (s * s) = nat s * nat s" using s by (simp add: nat_mult_distrib)
  moreover have "nat s \<le> nat s * nat s" by (cases "nat s") auto
  ultimately show ?thesis using s by (simp add: sub_size_def isqrt_from_square)
qed


lemma count_list_distinct: "distinct xs \<Longrightarrow> v \<in> set xs \<Longrightarrow> count_list xs v = 1"
proof (induction xs)
  case Nil
  then show ?case by simp
next
  case (Cons x xs)
  show ?case
  proof (cases "x = v")
    case True
    with Cons.prems have "v \<notin> set xs" by simp
    then have "count_list xs v = 0" by (induction xs) auto
    with True show ?thesis by simp
  next
    case False
    with Cons.prems have "distinct xs" "v \<in> set xs" by auto
    from Cons.IH [OF this] False show ?thesis by simp
  qed
qed

lemma exactly_once_cover:
  assumes len: "length xs = nat n" and cover: "\<forall>v \<in> {1..n}. v \<in> set xs"
  shows "distinct xs \<and> exactly_once xs n"
proof -
  from cover have sub: "{1..n} \<subseteq> set xs" by blast
  have "card {1..n} \<le> card (set xs)" using card_mono [of "set xs" "{1..n}"] sub by simp
  then have "nat n \<le> card (set xs)" by simp
  moreover have "card (set xs) \<le> length xs" by (rule card_length)
  ultimately have "card (set xs) = length xs" using len by simp
  then have d: "distinct xs" by (rule card_distinct)
  have "count_list xs v = 1" if "v \<in> set (range_py 1 (n + 1))" for v
  proof -
    from that have "v \<in> {1..n}" by auto
    with sub have "v \<in> set xs" by blast
    with d show ?thesis by (rule count_list_distinct)
  qed
  with d show ?thesis by (simp add: exactly_once_def)
qed

lemma find_single:
  "v \<in> set xs \<Longrightarrow> P v \<Longrightarrow> (\<forall>x \<in> set xs. P x \<longrightarrow> x = v) \<Longrightarrow> find P xs = Some v"
proof (induction xs)
  case Nil
  then show ?case by simp
next
  case (Cons x xs)
  show ?case
  proof (cases "P x")
    case True
    with Cons.prems(3) have "x = v" by simp
    with True show ?thesis by simp
  next
    case False
    with Cons.prems have "v \<in> set xs" "\<forall>x \<in> set xs. P x \<longrightarrow> x = v" by auto
    from Cons.IH [OF this(1) Cons.prems(2) this(2)] False show ?thesis by simp
  qed
qed

lemma cell_clause_total: "[prop_id n r c num. num \<leftarrow> range_py 1 (n + 1)] \<in> set (cell_clauses n r c)"
  by (simp add: cell_clauses_def Let_def)

lemma cell_clause_pair:
  assumes "1 \<le> a" "a < b" "b \<le> n"
  shows "[- prop_id n r c a, - prop_id n r c b] \<in> set (cell_clauses n r c)"
proof -
  let ?clause = "[prop_id n r c num. num \<leftarrow> range_py 1 (n + 1)]"
  have nth: "?clause ! nat (k - 1) = prop_id n r c k" if "1 \<le> k" "k \<le> n" for k
    using that by simp
  have "[- (?clause ! nat (a - 1)), - (?clause ! nat (b - 1))]
          \<in> (\<Union>i \<in> {0..<n}. (\<lambda>j. [- (?clause ! nat i), - (?clause ! nat j)]) ` {i + 1..<n})"
  proof (rule UN_I [of "a - 1"])
    show "a - 1 \<in> {0..<n}" using assms by simp
    show "[- (?clause ! nat (a - 1)), - (?clause ! nat (b - 1))]
            \<in> (\<lambda>j. [- (?clause ! nat (a - 1)), - (?clause ! nat j)]) ` {a - 1 + 1..<n}"
      by (rule image_eqI [of _ _ "b - 1"]) (use assms in simp_all)
  qed
  then have "[- (?clause ! nat (a - 1)), - (?clause ! nat (b - 1))] \<in> set (cell_clauses n r c)"
    by (simp add: cell_clauses_def Let_def)
  with assms show ?thesis by (simp only: nth) 
qed

lemma cell_unique:
  assumes cl: "\<forall>cl \<in> set (cell_clauses n r c). clause_holds \<sigma> cl"
    and b: "0 \<le> r" "r < n" "0 \<le> c" "c < n"
  shows "\<exists>v. 1 \<le> v \<and> v \<le> n \<and> (\<forall>num. 1 \<le> num \<and> num \<le> n \<longrightarrow> \<sigma> (prop_id n r c num) = (num = v))"
proof -
  have pos: "0 < prop_id n r c num" if "1 \<le> num" "num \<le> n" for num
    using prop_id_bounds [OF b that] by simp
  from cl cell_clause_total have "clause_holds \<sigma> [prop_id n r c num. num \<leftarrow> range_py 1 (n + 1)]"
    by blast
  then obtain v where v: "1 \<le> v" "v \<le> n" and hv: "lit_holds \<sigma> (prop_id n r c v)"
    by (auto simp: clause_holds_def)
  with pos have sv: "\<sigma> (prop_id n r c v)" by simp
  have "num = v" if num: "1 \<le> num" "num \<le> n" and sn: "\<sigma> (prop_id n r c num)" for num
  proof (rule ccontr)
    assume ne: "num \<noteq> v"
    have "\<not> \<sigma> (prop_id n r c a) \<or> \<not> \<sigma> (prop_id n r c b)" if "1 \<le> a" "a < b" "b \<le> n" for a b
    proof -
      from cl cell_clause_pair [OF that] have "clause_holds \<sigma> [- prop_id n r c a, - prop_id n r c b]"
        by blast
      moreover from that have "0 < prop_id n r c a" "0 < prop_id n r c b" by (auto intro: pos)
      ultimately show ?thesis by (simp add: clause_holds_def)
    qed
    note excl = this
    show False
    proof (cases "num < v")
      case True
      from excl [OF num(1) True v(2)] sn sv show False by simp
    next
      case False
      with ne have "v < num" by simp
      from excl [OF v(1) this num(2)] sn sv show False by simp
    qed
  qed
  with v sv show ?thesis by blast
qed

lemma first_true_unique:
  assumes "1 \<le> v" "v \<le> n"
    and "\<forall>num. 1 \<le> num \<and> num \<le> n \<longrightarrow> var_true model (prop_id n r c num) = (num = v)"
  shows "first_true model n r c = Some v"
  unfolding first_true_def
proof (rule find_single)
  show "v \<in> set (range_py 1 (n + 1))" using assms(1,2) by simp
  from assms(3) assms(1,2) show "var_true model (prop_id n r c v)" by blast
  show "\<forall>x \<in> set (range_py 1 (n + 1)). var_true model (prop_id n r c x) \<longrightarrow> x = v"
  proof (intro ballI impI)
    fix x assume "x \<in> set (range_py 1 (n + 1))" and t: "var_true model (prop_id n r c x)"
    then have "1 \<le> x \<and> x \<le> n" by simp
    with assms(3) have "var_true model (prop_id n r c x) = (x = v)" by blast
    with t show "x = v" by simp
  qed
qed

lemma sudoku_cnf_Inr:
  assumes "sudoku_cnf h g = Inr cnf"
  shows "\<exists>subs gs. subgrid_clauses (len g) (sub_size (len g)) = Inr subs
           \<and> given_clauses h g (len g) (cells (len g)) = Inr gs
           \<and> cnf = concat [cell_clauses (len g) r c. (r, c) \<leftarrow> cells (len g)]
                   @ row_clauses (len g) @ col_clauses (len g) @ subs @ gs"
  using assms by (auto simp: sudoku_cnf_def Let_def split: sum.splits)

lemma cells_set [simp]: "set (cells n) = {0..<n} \<times> {0..<n}"
  by (auto simp: cells_def)

lemma given_clauses_mem:
  assumes "given_clauses h g n cs = Inr gs" "(r, c) \<in> set cs"
  shows "\<exists>v. cell h g r c = Inr v \<and> (v \<noteq> 0 \<longrightarrow> [prop_id n r c v] \<in> set gs)"
  using assms
proof (induction cs arbitrary: gs)
  case Nil
  then show ?case by simp
next
  case (Cons rc cs)
  obtain r0 c0 where rc: "rc = (r0, c0)" by (cases rc)
  from Cons.prems(1) rc obtain v0 rest where
    v0: "cell h g r0 c0 = Inr v0" and rest: "given_clauses h g n cs = Inr rest"
    and gs: "gs = (if v0 \<noteq> 0 then [prop_id n r0 c0 v0] # rest else rest)"
    by (auto split: sum.splits)
  show ?case
  proof (cases "(r, c) = (r0, c0)")
    case True
    with v0 gs show ?thesis by auto
  next
    case False
    with Cons.prems(2) rc have "(r, c) \<in> set cs" by auto
    from Cons.IH [OF rest this] gs show ?thesis by auto
  qed
qed

lemma cell_Inr:
  assumes "cell h g r c = Inr v" "0 \<le> r" "r < len g" "0 \<le> c"
  shows "c < len (h (g ! nat r)) \<and> v = h (g ! nat r) ! nat c"
  using assms by (auto simp: cell_def get_def Let_def split: if_splits)


lemma in_set_comp2:
  "a \<in> set xs \<Longrightarrow> b \<in> set ys \<Longrightarrow> f a b \<in> set [f x y. x \<leftarrow> xs, y \<leftarrow> ys]"
  by auto

lemma in_set_comp3:
  "a \<in> set xs \<Longrightarrow> b \<in> set ys \<Longrightarrow> c \<in> set zs
     \<Longrightarrow> f a b c \<in> set [f x y z. x \<leftarrow> xs, y \<leftarrow> ys, z \<leftarrow> zs]"
  by auto

lemma model_cell:
  assumes m: "pysat_model m cnf" and cnf: "sudoku_cnf h g = Inr cnf"
    and b: "0 \<le> r" "r < len g" "0 \<le> c" "c < len g"
  shows "\<exists>v. 1 \<le> v \<and> v \<le> len g \<and> first_true m (len g) r c = Some v
             \<and> (\<forall>num. 1 \<le> num \<and> num \<le> len g \<longrightarrow>
                   var_true m (prop_id (len g) r c num) = (num = v))"
proof -
  from sudoku_cnf_Inr [OF cnf] b have "set (cell_clauses (len g) r c) \<subseteq> set cnf"
    by auto
  with m have "\<forall>cl \<in> set (cell_clauses (len g) r c). clause_holds (var_true m) cl"
    by (auto simp: pysat_model_def)
  from cell_unique [OF this b] obtain v where v: "1 \<le> v" "v \<le> len g"
    and u: "\<forall>num. 1 \<le> num \<and> num \<le> len g \<longrightarrow> var_true m (prop_id (len g) r c num) = (num = v)"
    by blast
  from first_true_unique [OF v u] v u show ?thesis by blast
qed

lemma model_covers:
  assumes m: "pysat_model m cnf" and cnf: "sudoku_cnf h g = Inr cnf"
    and b: "0 \<le> r" "r < len g" "0 \<le> c" "c < len g" "1 \<le> num" "num \<le> len g"
  shows "1 \<le> prop_id (len g) r c num \<and> prop_id (len g) r c num \<le> len m"
proof -
  from sudoku_cnf_Inr [OF cnf] b cell_clause_total [of "len g" r c]
  have "[prop_id (len g) r c num. num \<leftarrow> range_py 1 (len g + 1)] \<in> set cnf"
    by auto
  with m have "\<forall>l \<in> set [prop_id (len g) r c num. num \<leftarrow> range_py 1 (len g + 1)]. \<bar>l\<bar> \<le> len m"
    by (auto simp: pysat_model_def)
  with b have "\<bar>prop_id (len g) r c num\<bar> \<le> len m" by simp
  with prop_id_bounds [OF b] show ?thesis by simp
qed

lemma model_row:
  assumes m: "pysat_model m cnf" and cnf: "sudoku_cnf h g = Inr cnf"
    and b: "0 \<le> r" "r < len g" "1 \<le> num" "num \<le> len g"
  shows "\<exists>c. 0 \<le> c \<and> c < len g \<and> var_true m (prop_id (len g) r c num)"
proof -
  have "[prop_id (len g) r c num. c \<leftarrow> range_py 0 (len g)] \<in> set (row_clauses (len g))"
    unfolding row_clauses_def
    by (rule in_set_comp2 [where f = "\<lambda>r num. [prop_id (len g) r c num. c \<leftarrow> range_py 0 (len g)]"])
       (use b in simp_all)
  with sudoku_cnf_Inr [OF cnf] have "[prop_id (len g) r c num. c \<leftarrow> range_py 0 (len g)] \<in> set cnf"
    by auto
  with m have "clause_holds (var_true m) [prop_id (len g) r c num. c \<leftarrow> range_py 0 (len g)]"
    by (auto simp: pysat_model_def)
  then obtain c where c: "0 \<le> c" "c < len g" and "lit_holds (var_true m) (prop_id (len g) r c num)"
    by (auto simp: clause_holds_def)
  moreover from prop_id_bounds [OF b(1,2) c b(3,4)] have "0 < prop_id (len g) r c num" by simp
  ultimately show ?thesis by auto
qed

lemma model_col:
  assumes m: "pysat_model m cnf" and cnf: "sudoku_cnf h g = Inr cnf"
    and b: "0 \<le> c" "c < len g" "1 \<le> num" "num \<le> len g"
  shows "\<exists>r. 0 \<le> r \<and> r < len g \<and> var_true m (prop_id (len g) r c num)"
proof -
  have "[prop_id (len g) r c num. r \<leftarrow> range_py 0 (len g)] \<in> set (col_clauses (len g))"
    unfolding col_clauses_def
    by (rule in_set_comp2 [where f = "\<lambda>c num. [prop_id (len g) r c num. r \<leftarrow> range_py 0 (len g)]"])
       (use b in simp_all)
  with sudoku_cnf_Inr [OF cnf] have "[prop_id (len g) r c num. r \<leftarrow> range_py 0 (len g)] \<in> set cnf"
    by auto
  with m have "clause_holds (var_true m) [prop_id (len g) r c num. r \<leftarrow> range_py 0 (len g)]"
    by (auto simp: pysat_model_def)
  then obtain r where r: "0 \<le> r" "r < len g" and "lit_holds (var_true m) (prop_id (len g) r c num)"
    by (auto simp: clause_holds_def)
  moreover from prop_id_bounds [OF r b] have "0 < prop_id (len g) r c num" by simp
  ultimately show ?thesis by auto
qed

lemma range_step_square:
  assumes "0 < s"
  shows "range_step 0 (s * s) s = Inr [int k * s. k \<leftarrow> [0..<nat s]]"
proof -
  have "(s * s + (s - 1)) div s = s"
    using pair_div(1) [of "s - 1" s s] assms by simp
  then have "(s * s - 0 + s - 1) div s = s" by (simp add: algebra_simps)
  with assms show ?thesis by (simp add: range_step_def)
qed

lemma model_subgrid:
  assumes m: "pysat_model m cnf" and cnf: "sudoku_cnf h g = Inr cnf"
    and n: "len g = s * s" and s: "0 < s"
    and b: "0 \<le> i" "i < s" "0 \<le> j" "j < s" "1 \<le> num" "num \<le> len g"
  shows "\<exists>r c. i * s \<le> r \<and> r < i * s + s \<and> j * s \<le> c \<and> c < j * s + s
               \<and> var_true m (prop_id (len g) r c num)"
proof -
  let ?n = "len g"
  let ?starts = "[int k * s. k \<leftarrow> [0..<nat s]]"
  let ?f = "\<lambda>br bc num. [prop_id ?n r c num. r \<leftarrow> range_py br (br + s), c \<leftarrow> range_py bc (bc + s)]"
  from s have ss: "sub_size ?n = s" unfolding n by (simp add: sub_size_square)
  have subs: "subgrid_clauses ?n (sub_size ?n) =
          Inr [?f br bc num. br \<leftarrow> ?starts, bc \<leftarrow> ?starts, num \<leftarrow> range_py 1 (?n + 1)]"
    unfolding ss subgrid_clauses_def using range_step_square [OF s] by (simp add: n)
  have st: "k * s \<in> set ?starts" if "0 \<le> k" "k < s" for k
  proof -
    from that have "nat k \<in> set [0..<nat s]" "int (nat k) * s = k * s" by simp_all
    then show ?thesis by (metis (no_types, lifting) image_eqI set_map)
  qed
  from sudoku_cnf_Inr [OF cnf] obtain subs' gs where
    a: "subgrid_clauses ?n (sub_size ?n) = Inr subs'"
    and g: "given_clauses h g ?n (cells ?n) = Inr gs"
    and c: "cnf = concat [cell_clauses ?n r c. (r, c) \<leftarrow> cells ?n]
                   @ row_clauses ?n @ col_clauses ?n @ subs' @ gs"
    by (elim exE conjE)
  from a subs have eq: "subs' = [?f br bc num. br \<leftarrow> ?starts, bc \<leftarrow> ?starts, num \<leftarrow> range_py 1 (?n + 1)]"
    by simp
  have "?f (i * s) (j * s) num \<in> set subs'"
    unfolding eq by (rule in_set_comp3 [where f = ?f]) (use b st in simp_all)
  then have "?f (i * s) (j * s) num \<in> set cnf"
    unfolding c by simp
  with m have "clause_holds (var_true m) (?f (i * s) (j * s) num)"
    by (auto simp: pysat_model_def)
  then obtain r c where rc: "i * s \<le> r" "r < i * s + s" "j * s \<le> c" "c < j * s + s"
    and hl: "lit_holds (var_true m) (prop_id ?n r c num)"
    by (auto simp: clause_holds_def)
  from pair_bound [OF b(1,2), of "r - i * s" s] rc have r: "0 \<le> r" "r < ?n"
    by (simp_all add: n)
  from pair_bound [OF b(3,4), of "c - j * s" s] rc have c: "0 \<le> c" "c < ?n"
    by (simp_all add: n)
  from prop_id_bounds [OF r c b(5,6)] have "0 < prop_id ?n r c num" by simp
  with hl rc show ?thesis by auto
qed

lemma length_comp2: "length [f x y. x \<leftarrow> xs, y \<leftarrow> ys] = length xs * length ys"
  by (induction xs) auto

lemma model_grid_valid:
  assumes m: "pysat_model m cnf" and cnf: "sudoku_cnf h g = Inr cnf"
    and n: "len g = s * s" and s: "0 < s"
    and G: "\<forall>r c. 0 \<le> r \<and> r < len g \<and> 0 \<le> c \<and> c < len g \<longrightarrow>
                first_true m (len g) r c = Some (G ! nat r ! nat c)"
  shows "rows_ok G (len g) \<and> cols_ok G (len g) \<and> subgrids_ok G (len g) s"
proof -
  let ?n = "len g"
  have val: "G ! nat r ! nat c = num"
    if "0 \<le> r" "r < ?n" "0 \<le> c" "c < ?n" "1 \<le> num" "num \<le> ?n"
      and t: "var_true m (prop_id ?n r c num)" for r c num
  proof -
    from model_cell [OF m cnf that(1-4)] obtain v where
      v: "first_true m ?n r c = Some v"
      and u: "\<forall>num. 1 \<le> num \<and> num \<le> ?n \<longrightarrow> var_true m (prop_id ?n r c num) = (num = v)"
      by blast
    from G that(1-4) have "first_true m ?n r c = Some (G ! nat r ! nat c)" by blast
    with v have "G ! nat r ! nat c = v" by simp
    moreover from u that(5,6) t have "num = v" by blast
    ultimately show ?thesis by simp
  qed
  have rows: "exactly_once [G ! nat r ! nat c. c \<leftarrow> range_py 0 ?n] ?n" if "r \<in> set (range_py 0 ?n)" for r
  proof -
    from that have r: "0 \<le> r" "r < ?n" by simp_all
    have "\<forall>v \<in> {1..?n}. v \<in> set [G ! nat r ! nat c. c \<leftarrow> range_py 0 ?n]"
    proof
      fix v assume "v \<in> {1..?n}"
      then have v: "1 \<le> v" "v \<le> ?n" by simp_all
      from model_row [OF m cnf r v] obtain c where c: "0 \<le> c" "c < ?n"
        and t: "var_true m (prop_id ?n r c v)" by blast
      from val [OF r c v t] c show "v \<in> set [G ! nat r ! nat c. c \<leftarrow> range_py 0 ?n]"
        by (auto simp: image_iff)
    qed
    moreover have "length [G ! nat r ! nat c. c \<leftarrow> range_py 0 ?n] = nat ?n" by simp
    ultimately show ?thesis using exactly_once_cover by blast
  qed
  have cols: "exactly_once [G ! nat r ! nat c. r \<leftarrow> range_py 0 ?n] ?n" if "c \<in> set (range_py 0 ?n)" for c
  proof -
    from that have c: "0 \<le> c" "c < ?n" by simp_all
    have "\<forall>v \<in> {1..?n}. v \<in> set [G ! nat r ! nat c. r \<leftarrow> range_py 0 ?n]"
    proof
      fix v assume "v \<in> {1..?n}"
      then have v: "1 \<le> v" "v \<le> ?n" by simp_all
      from model_col [OF m cnf c v] obtain r where r: "0 \<le> r" "r < ?n"
        and t: "var_true m (prop_id ?n r c v)" by blast
      from val [OF r c v t] r show "v \<in> set [G ! nat r ! nat c. r \<leftarrow> range_py 0 ?n]"
        by (auto simp: image_iff)
    qed
    moreover have "length [G ! nat r ! nat c. r \<leftarrow> range_py 0 ?n] = nat ?n" by simp
    ultimately show ?thesis using exactly_once_cover by blast
  qed
  have subs: "exactly_once [G ! nat r ! nat c.
                      r \<leftarrow> range_py (i * s) (i * s + s), c \<leftarrow> range_py (j * s) (j * s + s)] ?n"
    if "i \<in> set (range_py 0 s)" "j \<in> set (range_py 0 s)" for i j
  proof -
    from that have i: "0 \<le> i" "i < s" and j: "0 \<le> j" "j < s" by simp_all
    let ?xs = "[G ! nat r ! nat c.
                      r \<leftarrow> range_py (i * s) (i * s + s), c \<leftarrow> range_py (j * s) (j * s + s)]"
    have "\<forall>v \<in> {1..?n}. v \<in> set ?xs"
    proof
      fix v assume "v \<in> {1..?n}"
      then have v: "1 \<le> v" "v \<le> ?n" by simp_all
      from model_subgrid [OF m cnf n s i j v] obtain r c where
        rc: "i * s \<le> r" "r < i * s + s" "j * s \<le> c" "c < j * s + s"
        and t: "var_true m (prop_id ?n r c v)" by blast
      from pair_bound [OF i, of "r - i * s" s] rc have r: "0 \<le> r" "r < ?n"
        by (simp_all add: n)
      from pair_bound [OF j, of "c - j * s" s] rc have c: "0 \<le> c" "c < ?n"
        by (simp_all add: n)
      have "G ! nat r ! nat c \<in> set ?xs"
        by (rule in_set_comp2 [where f = "\<lambda>r c. G ! nat r ! nat c"]) (use rc in simp_all)
      with val [OF r c v t] show "v \<in> set ?xs" by simp
    qed
    moreover have "length ?xs = nat ?n"
      using s by (simp only: length_comp2 length_range_py n) (simp add: nat_mult_distrib)
    ultimately show ?thesis using exactly_once_cover by blast
  qed
  from rows cols subs show ?thesis
    unfolding rows_ok_def cols_ok_def subgrids_ok_def by blast
qed

lemma sudoku_cnf_nonempty:
  assumes "sudoku_cnf h g = Inr cnf"
  shows "0 < len g"
proof (rule ccontr)
  assume "\<not> 0 < len g"
  then have "len g = 0" by (simp add: len_def)
  then have "subgrid_clauses (len g) (sub_size (len g)) = Inl ValueError"
    by (simp add: subgrid_clauses_def sub_size_def range_step_def)
  with sudoku_cnf_Inr [OF assms] show False by auto
qed

lemma sudoku_decode_run:
  assumes d: "distinct g" and cnf: "sudoku_cnf h g = Inr cnf" and m: "pysat_model m cnf"
  shows "\<exists>h'. decode_cells m (len g) g h (cells (len g)) = Inr h'
           \<and> (\<forall>r c. 0 \<le> r \<and> r < len g \<and> 0 \<le> c \<and> c < len g \<longrightarrow>
                 first_true m (len g) r c = Some (h' (g ! nat r) ! nat c))"
proof -
  let ?n = "len g"
  from sudoku_cnf_Inr [OF cnf] obtain gs where
    gs: "given_clauses h g ?n (cells ?n) = Inr gs" by blast
  have rd: "c < len (h (g ! nat r))" if "0 \<le> r" "r < ?n" "0 \<le> c" "c < ?n" for r c
  proof -
    from that have "(r, c) \<in> set (cells ?n)" by simp
    from given_clauses_mem [OF gs this] obtain v where "cell h g r c = Inr v" by blast
    from cell_Inr [OF this that(1-3)] show ?thesis by simp
  qed
  have p1: "\<forall>(r, c) \<in> set (cells ?n). 0 \<le> r \<and> r < len g \<and> 0 \<le> c \<and> c < len (h (g ! nat r))"
    using rd by auto
  have p2: "\<forall>(r, c) \<in> set (cells ?n). \<forall>num \<in> set (range_py 1 (?n + 1)).
            1 \<le> prop_id ?n r c num \<and> prop_id ?n r c num \<le> len m"
  proof (clarify)
    fix r c num assume "(r, c) \<in> set (cells ?n)" "num \<in> set (range_py 1 (?n + 1))"
    then have "0 \<le> r" "r < ?n" "0 \<le> c" "c < ?n" "1 \<le> num" "num \<le> ?n" by simp_all
    from model_covers [OF m cnf this]
    show "1 \<le> prop_id ?n r c num \<and> prop_id ?n r c num \<le> len m" .
  qed
  from decode_cells_eq [OF d p1 p2] obtain h' where
    run: "decode_cells m ?n g h (cells ?n) = Inr h'"
    and vals: "\<forall>r c. 0 \<le> r \<and> r < len g \<and> 0 \<le> c \<and> c < len (h (g ! nat r)) \<longrightarrow>
                 h' (g ! nat r) ! nat c =
                   (if (r, c) \<in> set (cells ?n)
                    then (case first_true m ?n r c of None \<Rightarrow> h (g ! nat r) ! nat c
                          | Some v \<Rightarrow> v)
                    else h (g ! nat r) ! nat c)"
    by blast
  have "first_true m ?n r c = Some (h' (g ! nat r) ! nat c)"
    if b: "0 \<le> r" "r < ?n" "0 \<le> c" "c < ?n" for r c
  proof -
    from model_cell [OF m cnf b] obtain v where v: "first_true m ?n r c = Some v" by blast
    from b have "(r, c) \<in> set (cells ?n)" by simp
    with vals b rd [OF b] v have "h' (g ! nat r) ! nat c = v" by simp
    with v show ?thesis by simp
  qed
  with run show ?thesis by blast
qed

text \<open>
  Claim C1, as amended.  Let the grid have \<open>n = s * s\<close> rows, each a list object
  of its own (no row object stands at two positions of the grid), let the clause list
  be built without an exception (so every row has at least \<open>n\<close> cells), and let the
  solver answer with a model of it.  Then \<open>solve_sudoku\<close>
  returns the grid with every value of \<open>1..n\<close> exactly once in each row, in each
  column and in each \<open>s\<close>-by-\<open>s\<close> subgrid.  The clauses only say that every value
  occurs somewhere in a group; a group has \<open>n\<close> cells and a cell holds one value, so
  no value occurs twice.
\<close>

theorem solve_sudoku_sound:
  assumes sq: "len g = s * s" "0 \<le> s" and d: "distinct g"
    and cnf: "sudoku_cnf h g = Inr cnf" and sol: "solver cnf = Inr (Some m)"
    and m: "pysat_model m cnf"
  shows "\<exists>h'. solve_sudoku solver h g = Inr (h', g)
           \<and> rows_ok (view h' g) (len g) \<and> cols_ok (view h' g) (len g)
           \<and> subgrids_ok (view h' g) (len g) s"
proof -
  from sudoku_cnf_nonempty [OF cnf] sq have s: "0 < s" by (cases "s = 0") auto
  from sudoku_decode_run [OF d cnf m] obtain h' where
    run: "decode_cells m (len g) g h (cells (len g)) = Inr h'"
    and vals: "\<forall>r c. 0 \<le> r \<and> r < len g \<and> 0 \<le> c \<and> c < len g \<longrightarrow>
                 first_true m (len g) r c = Some (h' (g ! nat r) ! nat c)"
    by blast
  have "first_true m (len g) r c = Some (view h' g ! nat r ! nat c)"
    if "0 \<le> r \<and> r < len g \<and> 0 \<le> c \<and> c < len g" for r c
  proof -
    from that have "nat r < length g" by (simp add: len_def nat_less_iff)
    then have "view h' g ! nat r = h' (g ! nat r)" by (simp add: view_def)
    with vals that show ?thesis by simp
  qed
  then have "\<forall>r c. 0 \<le> r \<and> r < len g \<and> 0 \<le> c \<and> c < len g \<longrightarrow>
                first_true m (len g) r c = Some (view h' g ! nat r ! nat c)" by blast
  from model_grid_valid [OF m cnf sq(1) s this]
  have "rows_ok (view h' g) (len g) \<and> cols_ok (view h' g) (len g)
           \<and> subgrids_ok (view h' g) (len g) s" .
  moreover have "solve_sudoku solver h g = Inr (h', g)"
    using cnf sol run by (simp add: solve_sudoku_def Let_def)
  ultimately show ?thesis by blast
qed

text \<open>
  The claim at the blank 4-by-4 grid and a model of its clauses: the returned grid is
  the Latin square the model describes, and it passes the three checks.
\<close>

theorem solve_sudoku_sound_witness:
  "\<exists>h'. solve_sudoku (\<lambda>cnf. Inr (Some [- 1, - 2, 3, - 4, - 5, - 6, - 7, 8, 9, - 10, - 11, - 12, - 13, 14, - 15, - 16, 17, - 18, - 19, - 20, - 21, 22, - 23, - 24, - 25, - 26, 27, - 28, - 29, - 30, - 31, 32, - 33, 34, - 35, - 36, 37, - 38, - 39, - 40, - 41, - 42, - 43, 44, - 45, - 46, 47, - 48, - 49, - 50, - 51, 52, - 53, - 54, 55, - 56, - 57, 58, - 59, - 60, 61, - 62, - 63, - 64])) (\<lambda>a. [0, 0, 0, 0]) [0, 1, 2, 3] = Inr (h', [0, 1, 2, 3])
     \<and> view h' [0, 1, 2, 3] = [[3, 4, 1, 2], [1, 2, 3, 4], [2, 1, 4, 3], [4, 3, 2, 1]]
     \<and> rows_ok (view h' [0, 1, 2, 3]) 4 \<and> cols_ok (view h' [0, 1, 2, 3]) 4
     \<and> subgrids_ok (view h' [0, 1, 2, 3]) 4 2"
proof -
  let ?m = "[- 1, - 2, 3, - 4, - 5, - 6, - 7, 8, 9, - 10, - 11, - 12, - 13, 14, - 15, - 16, 17, - 18, - 19, - 20, - 21, 22, - 23, - 24, - 25, - 26, 27, - 28, - 29, - 30, - 31, 32, - 33, 34, - 35, - 36, 37, - 38, - 39, - 40, - 41, - 42, - 43, 44, - 45, - 46, 47, - 48, - 49, - 50, - 51, 52, - 53, - 54, 55, - 56, - 57, 58, - 59, - 60, 61, - 62, - 63, - 64] :: int list"
  let ?h = "\<lambda>a::nat. [0, 0, 0, 0 :: int]"
  let ?g = "[0, 1, 2, 3 :: nat]"
  let ?cnf = "case sudoku_cnf ?h ?g of Inr c \<Rightarrow> c | Inl er \<Rightarrow> []"
  have sq: "len ?g = 2 * 2" "(0::int) \<le> 2" by (simp_all add: len_def)
  have d: "distinct ?g" by simp
  have cnf: "sudoku_cnf ?h ?g = Inr ?cnf" by code_simp
  have m: "pysat_model ?m ?cnf" by code_simp
  have v: "map_sum id (\<lambda>(h', sol). view h' sol) (solve_sudoku (\<lambda>cnf. Inr (Some ?m)) ?h ?g)
             = Inr [[3, 4, 1, 2], [1, 2, 3, 4], [2, 1, 4, 3], [4, 3, 2, 1]]"
    by code_simp
  from solve_sudoku_sound [where solver = "\<lambda>cnf. Inr (Some ?m)", OF sq d cnf refl m] obtain h' where
    h': "solve_sudoku (\<lambda>cnf. Inr (Some ?m)) ?h ?g = Inr (h', ?g)"
    and ok: "rows_ok (view h' ?g) (len ?g) \<and> cols_ok (view h' ?g) (len ?g)
           \<and> subgrids_ok (view h' ?g) (len ?g) 2" by blast
  from v h' have "view h' ?g = [[3, 4, 1, 2], [1, 2, 3, 4], [2, 1, 4, 3], [4, 3, 2, 1]]" by simp
  with h' ok show ?thesis by (auto simp: len_def)
qed

text \<open>
  Claim C1 as stated fails for a grid whose four rows are one list object, as
  \<open>[[0] * 4] * 4\<close> builds it.  The clause list is that of the blank grid and the
  Latin square is a model of it, but the rows of the square are written one after the
  other into the same list: every row of the returned grid is the last row of the
  square, and no column and no subgrid holds each value once.
\<close>

theorem aliased_rows_not_solved:
  "len [0, 0, 0, 0 :: nat] = 2 * 2
   \<and> sudoku_cnf (\<lambda>a. [0, 0, 0, 0]) [0, 0, 0, 0]
       = Inr (case sudoku_cnf (\<lambda>a. [0, 0, 0, 0]) [0, 0, 0, 0] of Inr c \<Rightarrow> c | Inl er \<Rightarrow> [])
   \<and> pysat_model [- 1, - 2, 3, - 4, - 5, - 6, - 7, 8, 9, - 10, - 11, - 12, - 13, 14, - 15, - 16, 17, - 18, - 19, - 20, - 21, 22, - 23, - 24, - 25, - 26, 27, - 28, - 29, - 30, - 31, 32, - 33, 34, - 35, - 36, 37, - 38, - 39, - 40, - 41, - 42, - 43, 44, - 45, - 46, 47, - 48, - 49, - 50, - 51, 52, - 53, - 54, 55, - 56, - 57, 58, - 59, - 60, 61, - 62, - 63, - 64]
        (case sudoku_cnf (\<lambda>a. [0, 0, 0, 0]) [0, 0, 0, 0] of Inr c \<Rightarrow> c | Inl er \<Rightarrow> [])
   \<and> map_sum id (\<lambda>(h', sol). view h' sol)
        (solve_sudoku (\<lambda>cnf. Inr (Some [- 1, - 2, 3, - 4, - 5, - 6, - 7, 8, 9, - 10, - 11, - 12, - 13, 14, - 15, - 16, 17, - 18, - 19, - 20, - 21, 22, - 23, - 24, - 25, - 26, 27, - 28, - 29, - 30, - 31, 32, - 33, 34, - 35, - 36, 37, - 38, - 39, - 40, - 41, - 42, - 43, 44, - 45, - 46, 47, - 48, - 49, - 50, - 51, 52, - 53, - 54, 55, - 56, - 57, 58, - 59, - 60, 61, - 62, - 63, - 64]))
           (\<lambda>a. [0, 0, 0, 0]) [0, 0, 0, 0])
       = Inr [[4, 3, 2, 1], [4, 3, 2, 1], [4, 3, 2, 1], [4, 3, 2, 1]]
   \<and> rows_ok [[4, 3, 2, 1], [4, 3, 2, 1], [4, 3, 2, 1], [4, 3, 2, 1]] 4
   \<and> \<not> cols_ok [[4, 3, 2, 1], [4, 3, 2, 1], [4, 3, 2, 1], [4, 3, 2, 1]] 4
   \<and> \<not> subgrids_ok [[4, 3, 2, 1], [4, 3, 2, 1], [4, 3, 2, 1], [4, 3, 2, 1]] 4 2"
  by code_simp

section \<open>The Sudoku solver writes into its argument\<close>

lemma sudoku_readable:
  assumes cnf: "sudoku_cnf h g = Inr cnf" and b: "0 \<le> r" "r < len g" "0 \<le> c" "c < len g"
  shows "c < len (h (g ! nat r))"
proof -
  from sudoku_cnf_Inr [OF cnf] obtain gs where
    gs: "given_clauses h g (len g) (cells (len g)) = Inr gs" by blast
  from b have "(r, c) \<in> set (cells (len g))" by simp
  from given_clauses_mem [OF gs this] obtain v where "cell h g r c = Inr v" by blast
  from cell_Inr [OF this b(1-3)] show ?thesis by simp
qed

lemma sudoku_decode_values:
  assumes d: "distinct g" and cnf: "sudoku_cnf h g = Inr cnf"
    and ln: "len g * len g * len g \<le> len m"
  shows "\<exists>h'. decode_cells m (len g) g h (cells (len g)) = Inr h'
           \<and> (\<forall>r c. 0 \<le> r \<and> r < len g \<and> 0 \<le> c \<and> c < len g \<longrightarrow>
                 h' (g ! nat r) ! nat c =
                   (case first_true m (len g) r c of None \<Rightarrow> h (g ! nat r) ! nat c
                    | Some v \<Rightarrow> v))"
proof -
  let ?n = "len g"
  have p1: "\<forall>(r, c) \<in> set (cells ?n). 0 \<le> r \<and> r < len g \<and> 0 \<le> c \<and> c < len (h (g ! nat r))"
    using sudoku_readable [OF cnf] by auto
  have p2: "\<forall>(r, c) \<in> set (cells ?n). \<forall>num \<in> set (range_py 1 (?n + 1)).
            1 \<le> prop_id ?n r c num \<and> prop_id ?n r c num \<le> len m"
  proof (clarify)
    fix r c num assume "(r, c) \<in> set (cells ?n)" "num \<in> set (range_py 1 (?n + 1))"
    then have "0 \<le> r" "r < ?n" "0 \<le> c" "c < ?n" "1 \<le> num" "num \<le> ?n" by simp_all
    from prop_id_bounds [OF this] ln
    show "1 \<le> prop_id ?n r c num \<and> prop_id ?n r c num \<le> len m" by simp
  qed
  from decode_cells_eq [OF d p1 p2] obtain h' where
    run: "decode_cells m ?n g h (cells ?n) = Inr h'"
    and vals: "\<forall>r c. 0 \<le> r \<and> r < len g \<and> 0 \<le> c \<and> c < len (h (g ! nat r)) \<longrightarrow>
                 h' (g ! nat r) ! nat c =
                   (if (r, c) \<in> set (cells ?n)
                    then (case first_true m ?n r c of None \<Rightarrow> h (g ! nat r) ! nat c
                          | Some v \<Rightarrow> v)
                    else h (g ! nat r) ! nat c)"
    by blast
  have "h' (g ! nat r) ! nat c =
          (case first_true m ?n r c of None \<Rightarrow> h (g ! nat r) ! nat c | Some v \<Rightarrow> v)"
    if b: "0 \<le> r" "r < ?n" "0 \<le> c" "c < ?n" for r c
  proof -
    from b have "(r, c) \<in> set (cells ?n)" by simp
    with vals b sudoku_readable [OF cnf b] show ?thesis by simp
  qed
  with run show ?thesis by blast
qed

lemma decode_cells_runs:
  assumes "\<forall>(r, c) \<in> set cs. 0 \<le> r \<and> r < len sol \<and> 0 \<le> c \<and> c < len (h (sol ! nat r))"
    and "\<forall>(r, c) \<in> set cs. \<forall>num \<in> set (range_py 1 (n + 1)).
            1 \<le> prop_id n r c num \<and> prop_id n r c num \<le> len model"
  shows "\<exists>h'. decode_cells model n sol h cs = Inr h' \<and> (\<forall>a. length (h' a) = length (h a))"
  using assms
proof (induction cs arbitrary: h)
  case Nil
  then show ?case by simp
next
  case (Cons rc cs)
  obtain r0 c0 where rc: "rc = (r0, c0)" by (cases rc)
  from Cons.prems(1) rc have b0: "0 \<le> r0" "r0 < len sol" "0 \<le> c0" "c0 < len (h (sol ! nat r0))"
    by auto
  from Cons.prems(2) rc have
    "\<forall>num \<in> set (range_py 1 (n + 1)). 1 \<le> prop_id n r0 c0 num \<and> prop_id n r0 c0 num \<le> len model"
    by auto
  from find_num_eq [OF this]
  have fn: "find_num model n r0 c0 (range_py 1 (n + 1)) = Inr (first_true model n r0 c0)"
    by (simp add: first_true_def)
  define h1 where "h1 = (case first_true model n r0 c0 of None \<Rightarrow> h
                         | Some v \<Rightarrow> h(sol ! nat r0 := (h (sol ! nat r0))[nat c0 := v]))"
  have len1: "length (h1 a) = length (h a)" for a
    by (simp add: h1_def split: option.splits)
  have step: "decode_cells model n sol h (rc # cs) = decode_cells model n sol h1 cs"
    using fn set_cell_eq [where h = h and sol = sol and r = r0 and c = c0, OF b0]
    by (simp add: rc h1_def split: option.splits)
  have p1: "\<forall>(r, c) \<in> set cs. 0 \<le> r \<and> r < len sol \<and> 0 \<le> c \<and> c < len (h1 (sol ! nat r))"
    using Cons.prems(1) by (auto simp: len_def len1)
  have p2: "\<forall>(r, c) \<in> set cs. \<forall>num \<in> set (range_py 1 (n + 1)).
            1 \<le> prop_id n r c num \<and> prop_id n r c num \<le> len model"
    using Cons.prems(2) by auto
  from Cons.IH [OF p1 p2] obtain h' where
    run: "decode_cells model n sol h1 cs = Inr h'"
    and lens: "\<forall>a. length (h' a) = length (h1 a)"
    by blast
  from step run lens len1 show ?case by simp
qed

lemma sudoku_decode_returns:
  assumes cnf: "sudoku_cnf h g = Inr cnf" and sol: "solver cnf = Inr (Some m)"
    and ln: "len g * len g * len g \<le> len m"
  shows "\<exists>h'. solve_sudoku solver h g = Inr (h', g)"
proof -
  let ?n = "len g"
  have p1: "\<forall>(r, c) \<in> set (cells ?n). 0 \<le> r \<and> r < len g \<and> 0 \<le> c \<and> c < len (h (g ! nat r))"
    using sudoku_readable [OF cnf] by auto
  have p2: "\<forall>(r, c) \<in> set (cells ?n). \<forall>num \<in> set (range_py 1 (?n + 1)).
            1 \<le> prop_id ?n r c num \<and> prop_id ?n r c num \<le> len m"
  proof (clarify)
    fix r c num assume "(r, c) \<in> set (cells ?n)" "num \<in> set (range_py 1 (?n + 1))"
    then have "0 \<le> r" "r < ?n" "0 \<le> c" "c < ?n" "1 \<le> num" "num \<le> ?n" by simp_all
    from prop_id_bounds [OF this] ln
    show "1 \<le> prop_id ?n r c num \<and> prop_id ?n r c num \<le> len m" by simp
  qed
  from decode_cells_runs [OF p1 p2] obtain h' where
    "decode_cells m ?n g h (cells ?n) = Inr h'" by blast
  with cnf sol have "solve_sudoku solver h g = Inr (h', g)"
    by (simp add: solve_sudoku_def Let_def)
  then show ?thesis by blast
qed

text \<open>
  Claim C7, as amended.  Whenever \<open>solve_sudoku\<close> returns, the list it returns is
  its argument itself, not a copy, and rows that do not belong to the grid are as
  before.  When the solver answers unsatisfiable the call returns with the store as it
  was.  When the solver answers with a list that covers every variable (as every model
  does) and the rows of the grid are list objects of their own, the call returns and has
  overwritten the caller's rows: each cell holds the value of its first true literal,
  and its input value only if it has none.
\<close>

theorem solve_sudoku_in_place:
  "(\<forall>h' sol. solve_sudoku solver h g = Inr (h', sol)
       \<longrightarrow> sol = g \<and> (\<forall>a. a \<notin> set g \<longrightarrow> h' a = h a))
   \<and> (\<forall>cnf. sudoku_cnf h g = Inr cnf \<and> solver cnf = Inr None
          \<longrightarrow> solve_sudoku solver h g = Inr (h, g))
   \<and> (\<forall>cnf m. distinct g \<and> sudoku_cnf h g = Inr cnf \<and> solver cnf = Inr (Some m)
            \<and> len g * len g * len g \<le> len m
          \<longrightarrow> (\<exists>h'. solve_sudoku solver h g = Inr (h', g)
                 \<and> (\<forall>r c. 0 \<le> r \<and> r < len g \<and> 0 \<le> c \<and> c < len g \<longrightarrow>
                        h' (g ! nat r) ! nat c =
                          (case first_true m (len g) r c of None \<Rightarrow> h (g ! nat r) ! nat c
                           | Some v \<Rightarrow> v))))"
proof (intro conjI allI impI)
  fix h' sol assume run: "solve_sudoku solver h g = Inr (h', sol)"
  then show "sol = g"
    by (auto simp: solve_sudoku_def Let_def split: sum.splits option.splits)
  fix a assume "a \<notin> set g"
  with run show "h' a = h a"
    by (auto simp: solve_sudoku_def Let_def split: sum.splits option.splits
             dest: decode_cells_frame)
next
  fix cnf assume "sudoku_cnf h g = Inr cnf \<and> solver cnf = Inr None"
  then show "solve_sudoku solver h g = Inr (h, g)" by (simp add: solve_sudoku_def Let_def)
next
  fix cnf m
  assume a: "distinct g \<and> sudoku_cnf h g = Inr cnf \<and> solver cnf = Inr (Some m)
               \<and> len g * len g * len g \<le> len m"
  then have d: "distinct g" and cnf: "sudoku_cnf h g = Inr cnf"
    and s: "solver cnf = Inr (Some m)" and ln: "len g * len g * len g \<le> len m" by simp_all
  from sudoku_decode_values [OF d cnf ln] obtain h' where
    dec: "decode_cells m (len g) g h (cells (len g)) = Inr h'"
    and vals: "\<forall>r c. 0 \<le> r \<and> r < len g \<and> 0 \<le> c \<and> c < len g \<longrightarrow>
                 h' (g ! nat r) ! nat c =
                   (case first_true m (len g) r c of None \<Rightarrow> h (g ! nat r) ! nat c
                    | Some v \<Rightarrow> v)"
    by blast
  from cnf s dec have "solve_sudoku solver h g = Inr (h', g)"
    by (simp add: solve_sudoku_def Let_def)
  with vals show "\<exists>h'. solve_sudoku solver h g = Inr (h', g)
      \<and> (\<forall>r c. 0 \<le> r \<and> r < len g \<and> 0 \<le> c \<and> c < len g \<longrightarrow>
             h' (g ! nat r) ! nat c =
               (case first_true m (len g) r c of None \<Rightarrow> h (g ! nat r) ! nat c
                | Some v \<Rightarrow> v))"
    by blast
qed

text \<open>
  The amended claim at the blank 4-by-4 grid of four separate rows.  With the Latin
  square as the answer, the call returns the caller's list, a row outside the grid is
  as before, and cell (1, 2) of the caller's grid holds 3, the value of its first true
  literal.  With the answer unsatisfiable, the grid comes back blank.
\<close>

theorem solve_sudoku_in_place_witness:
  "(\<exists>h'. solve_sudoku (\<lambda>cnf. Inr (Some [- 1, - 2, 3, - 4, - 5, - 6, - 7, 8, 9, - 10, - 11, - 12, - 13, 14, - 15, - 16, 17, - 18, - 19, - 20, - 21, 22, - 23, - 24, - 25, - 26, 27, - 28, - 29, - 30, - 31, 32, - 33, 34, - 35, - 36, 37, - 38, - 39, - 40, - 41, - 42, - 43, 44, - 45, - 46, 47, - 48, - 49, - 50, - 51, 52, - 53, - 54, 55, - 56, - 57, 58, - 59, - 60, 61, - 62, - 63, - 64]))
          (\<lambda>a. [0, 0, 0, 0]) [0, 1, 2, 3] = Inr (h', [0, 1, 2, 3])
      \<and> h' 4 = [0, 0, 0, 0]
      \<and> first_true [- 1, - 2, 3, - 4, - 5, - 6, - 7, 8, 9, - 10, - 11, - 12, - 13, 14, - 15, - 16, 17, - 18, - 19, - 20, - 21, 22, - 23, - 24, - 25, - 26, 27, - 28, - 29, - 30, - 31, 32, - 33, 34, - 35, - 36, 37, - 38, - 39, - 40, - 41, - 42, - 43, 44, - 45, - 46, 47, - 48, - 49, - 50, - 51, 52, - 53, - 54, 55, - 56, - 57, 58, - 59, - 60, 61, - 62, - 63, - 64] 4 1 2 = Some 3
      \<and> h' 1 ! 2 = 3)
   \<and> map_sum id (\<lambda>(h', sol). view h' sol) (solve_sudoku (\<lambda>cnf. Inr None) (\<lambda>a. [0, 0, 0, 0]) [0, 1, 2, 3])
       = Inr [[0, 0, 0, 0], [0, 0, 0, 0], [0, 0, 0, 0], [0, 0, 0, 0]]"
proof -
  let ?m = "[- 1, - 2, 3, - 4, - 5, - 6, - 7, 8, 9, - 10, - 11, - 12, - 13, 14, - 15, - 16, 17, - 18, - 19, - 20, - 21, 22, - 23, - 24, - 25, - 26, 27, - 28, - 29, - 30, - 31, 32, - 33, 34, - 35, - 36, 37, - 38, - 39, - 40, - 41, - 42, - 43, 44, - 45, - 46, 47, - 48, - 49, - 50, - 51, 52, - 53, - 54, 55, - 56, - 57, 58, - 59, - 60, 61, - 62, - 63, - 64] :: int list"
  let ?s = "\<lambda>cnf::int list list. Inr (Some ?m) :: error + int list option"
  let ?u = "\<lambda>cnf::int list list. Inr None :: error + int list option"
  let ?h = "\<lambda>a::nat. [0, 0, 0, 0 :: int]"
  let ?g = "[0, 1, 2, 3 :: nat]"
  let ?cnf = "case sudoku_cnf ?h ?g of Inr c \<Rightarrow> c | Inl er \<Rightarrow> []"
  have cnf: "sudoku_cnf ?h ?g = Inr ?cnf" by code_simp
  have ft: "first_true ?m 4 1 2 = Some 3" by code_simp
  have ln: "len ?g = 4" "len ?m = 64" by (simp_all add: len_def)
  have a: "distinct ?g \<and> sudoku_cnf ?h ?g = Inr ?cnf \<and> ?s ?cnf = Inr (Some ?m)
             \<and> len ?g * len ?g * len ?g \<le> len ?m"
    unfolding ln using cnf by simp
  have b: "(0::int) \<le> 1 \<and> 1 < len ?g \<and> (0::int) \<le> 2 \<and> 2 < len ?g"
    unfolding ln by simp
  have n: "sudoku_cnf ?h ?g = Inr ?cnf \<and> ?u ?cnf = Inr None" using cnf by simp
  note t = solve_sudoku_in_place [where solver = ?s and h = ?h and g = ?g]
  from t have "\<forall>cnf m. distinct ?g \<and> sudoku_cnf ?h ?g = Inr cnf \<and> ?s cnf = Inr (Some m)
            \<and> len ?g * len ?g * len ?g \<le> len m
          \<longrightarrow> (\<exists>h'. solve_sudoku ?s ?h ?g = Inr (h', ?g)
                 \<and> (\<forall>r c. 0 \<le> r \<and> r < len ?g \<and> 0 \<le> c \<and> c < len ?g \<longrightarrow>
                        h' (?g ! nat r) ! nat c =
                          (case first_true m (len ?g) r c of None \<Rightarrow> ?h (?g ! nat r) ! nat c
                           | Some v \<Rightarrow> v)))"
    by (rule conjunct2 [OF conjunct2])
  from this [rule_format, OF a] obtain h' where
    run: "solve_sudoku ?s ?h ?g = Inr (h', ?g)"
    and vals: "\<forall>r c. 0 \<le> r \<and> r < len ?g \<and> 0 \<le> c \<and> c < len ?g \<longrightarrow>
                 h' (?g ! nat r) ! nat c =
                   (case first_true ?m (len ?g) r c of None \<Rightarrow> ?h (?g ! nat r) ! nat c
                    | Some v \<Rightarrow> v)"
    by (elim exE conjE)
  from vals [rule_format, OF b]
  have "h' (?g ! nat 1) ! nat 2 =
      (case first_true ?m (len ?g) 1 2 of None \<Rightarrow> ?h (?g ! nat 1) ! nat 2 | Some v \<Rightarrow> v)" .
  then have c: "h' 1 ! 2 = 3" unfolding ln ft by simp
  from t have "\<forall>h' sol. solve_sudoku ?s ?h ?g = Inr (h', sol)
       \<longrightarrow> sol = ?g \<and> (\<forall>a. a \<notin> set ?g \<longrightarrow> h' a = ?h a)"
    by (rule conjunct1)
  from this [rule_format, OF run] have frame: "\<forall>a. a \<notin> set ?g \<longrightarrow> h' a = ?h a"
    by (rule conjunct2)
  have "(4::nat) \<notin> set ?g" by simp
  with frame have f: "h' 4 = [0, 0, 0, 0]" by blast
  from solve_sudoku_in_place [where solver = ?u and h = ?h and g = ?g]
  have "\<forall>cnf. sudoku_cnf ?h ?g = Inr cnf \<and> ?u cnf = Inr None
          \<longrightarrow> solve_sudoku ?u ?h ?g = Inr (?h, ?g)"
    by (rule conjunct1 [OF conjunct2])
  from this [rule_format, OF n]
  have u: "map_sum id (\<lambda>(h', sol). view h' sol) (solve_sudoku ?u ?h ?g)
       = Inr [[0, 0, 0, 0], [0, 0, 0, 0], [0, 0, 0, 0], [0, 0, 0, 0]]"
    by (simp add: view_def)
  from run f ft c have e: "\<exists>h'. solve_sudoku ?s ?h ?g = Inr (h', ?g)
      \<and> h' 4 = [0, 0, 0, 0] \<and> first_true ?m 4 1 2 = Some 3 \<and> h' 1 ! 2 = 3"
    by (intro exI conjI)
  from e u show ?thesis by (rule conjI)
qed

text \<open>
  Claim C7 as stated fails when the solver finds a model: the caller's 1-by-1 grid
  holds the blank 0 before the call and the value 1 after it.
\<close>

theorem solve_sudoku_mutates:
  "(case solve_sudoku (\<lambda>cnf. Inr (Some [1])) (\<lambda>a. [0]) [0] of
      Inl er \<Rightarrow> False
    | Inr (h', sol) \<Rightarrow> view h' [0] = [[1]] \<and> view h' sol = [[1]])
   \<and> view (\<lambda>a. [0]) [0] = [[0]]"
  by code_simp

section \<open>Contradictory givens\<close>

lemma model_given:
  assumes m: "pysat_model m cnf" and cnf: "sudoku_cnf h g = Inr cnf"
    and b: "0 \<le> r" "r < len g" "0 \<le> c" "c < len g"
    and gv: "cell h g r c = Inr v" and v: "1 \<le> v" "v \<le> len g"
  shows "first_true m (len g) r c = Some v"
proof -
  let ?n = "len g"
  from sudoku_cnf_Inr [OF cnf] obtain subs gs where
    gs: "given_clauses h g ?n (cells ?n) = Inr gs"
    and c: "cnf = concat [cell_clauses ?n r c. (r, c) \<leftarrow> cells ?n]
                   @ row_clauses ?n @ col_clauses ?n @ subs @ gs"
    by blast
  from b have "(r, c) \<in> set (cells ?n)" by simp
  from given_clauses_mem [OF gs this] gv v have "[prop_id ?n r c v] \<in> set gs" by auto
  then have "[prop_id ?n r c v] \<in> set cnf" unfolding c by simp
  with m have "clause_holds (var_true m) [prop_id ?n r c v]" by (auto simp: pysat_model_def)
  moreover from prop_id_bounds [OF b v] have "0 < prop_id ?n r c v" by simp
  ultimately have t: "var_true m (prop_id ?n r c v)" by (simp add: clause_holds_def)
  from model_cell [OF m cnf b] obtain w where
    w: "first_true m ?n r c = Some w"
    and u: "\<forall>num. 1 \<le> num \<and> num \<le> ?n \<longrightarrow> var_true m (prop_id ?n r c num) = (num = w)"
    by blast
  from u v t have "v = w" by blast
  with w show ?thesis by simp
qed

lemma duplicate_row_no_model:
  assumes cnf: "sudoku_cnf h g = Inr cnf"
    and b: "0 \<le> r" "r < len g" "0 \<le> c1" "c1 < len g" "0 \<le> c2" "c2 < len g" "c1 \<noteq> c2"
    and g1: "cell h g r c1 = Inr v" and g2: "cell h g r c2 = Inr v"
    and v: "1 \<le> v" "v \<le> len g"
  shows "\<not> pysat_model m cnf"
proof
  assume m: "pysat_model m cnf"
  let ?n = "len g"
  let ?xs = "[the (first_true m ?n r c). c \<leftarrow> range_py 0 ?n]"
  have "\<forall>num \<in> {1..?n}. num \<in> set ?xs"
  proof
    fix num assume "num \<in> {1..?n}"
    then have num: "1 \<le> num" "num \<le> ?n" by simp_all
    from model_row [OF m cnf b(1,2) num] obtain c where c: "0 \<le> c" "c < ?n"
      and t: "var_true m (prop_id ?n r c num)" by blast
    from model_cell [OF m cnf b(1,2) c] obtain w where
      w: "first_true m ?n r c = Some w"
      and u: "\<forall>num. 1 \<le> num \<and> num \<le> ?n \<longrightarrow> var_true m (prop_id ?n r c num) = (num = w)"
      by blast
    from u num t have "num = w" by blast
    with w have "the (first_true m ?n r c) = num" by simp
    with c show "num \<in> set ?xs" by (auto simp: image_iff)
  qed
  moreover have "length ?xs = nat ?n" by simp
  ultimately have d: "distinct ?xs" using exactly_once_cover by blast
  from b have i: "nat c1 < length ?xs" "nat c2 < length ?xs" "nat c1 \<noteq> nat c2" by simp_all
  from b have "?xs ! nat c1 = the (first_true m ?n r c1)" "?xs ! nat c2 = the (first_true m ?n r c2)"
    by simp_all
  with model_given [OF m cnf b(1-4) g1 v] model_given [OF m cnf b(1,2,5,6) g2 v]
  have eq: "?xs ! nat c1 = ?xs ! nat c2" by simp
  from d i(1,2) have "(?xs ! nat c1 = ?xs ! nat c2) = (nat c1 = nat c2)"
    by (rule nth_eq_iff_index_eq)
  with eq i(3) show False by blast
qed

text \<open>
  Claim C5, as amended.  If two different cells of one row are pre-filled with the same
  value \<open>v\<close> and \<open>1 \<le> v \<le> n\<close>, the clause list has no model.  The puzzle is then
  never solved: with any solver that only returns models, \<open>solve_sudoku\<close> raises
  what the solver raises, and when the solver returns it takes the unsatisfiable branch
  and returns the grid as it was.  No clause forbids a value twice in a row: the two
  unit clauses fix both cells, each cell holds one value, and the other \<open>n - 2\<close> cells
  cannot cover the remaining \<open>n - 1\<close> values.
\<close>

theorem duplicate_given_unsat:
  assumes cnf: "sudoku_cnf h g = Inr cnf"
    and b: "0 \<le> r" "r < len g" "0 \<le> c1" "c1 < len g" "0 \<le> c2" "c2 < len g" "c1 \<noteq> c2"
    and g1: "cell h g r c1 = Inr v" and g2: "cell h g r c2 = Inr v"
    and v: "1 \<le> v" "v \<le> len g"
  shows "(\<forall>m. \<not> pysat_model m cnf)
         \<and> (\<forall>solver. (\<forall>m. solver cnf = Inr (Some m) \<longrightarrow> pysat_model m cnf)
               \<longrightarrow> solve_sudoku solver h g =
                     (case solver cnf of Inl er \<Rightarrow> Inl er | Inr answer \<Rightarrow> Inr (h, g)))"
proof (intro conjI allI impI)
  fix m show "\<not> pysat_model m cnf"
    by (rule duplicate_row_no_model [OF assms])
next
  fix solver :: "int list list \<Rightarrow> error + int list option"
  assume sound: "\<forall>m. solver cnf = Inr (Some m) \<longrightarrow> pysat_model m cnf"
  show "solve_sudoku solver h g =
          (case solver cnf of Inl er \<Rightarrow> Inl er | Inr answer \<Rightarrow> Inr (h, g))"
  proof (cases "solver cnf")
    case (Inl er)
    with cnf show ?thesis by (simp add: solve_sudoku_def Let_def)
  next
    case (Inr answer)
    have "answer = None"
    proof (cases answer)
      case None
      then show ?thesis .
    next
      case (Some m)
      with Inr sound have "pysat_model m cnf" by blast
      with duplicate_row_no_model [OF assms] show ?thesis by blast
    qed
    with Inr cnf show ?thesis by (simp add: solve_sudoku_def Let_def)
  qed
qed

text \<open>
  The amended claim at two 4-by-4 grids whose first row starts with 3, 3.  In the
  first the other cells are blank: the Latin square of the earlier witness is not a
  model, and with a solver that answers unsatisfiable the grid is returned unchanged.
  In the second the third cell holds \<open>-8\<close>, for which \<open>prop\<close> gives the literal 0:
  the clause list holds the clause \<open>[0]\<close>, the solver refuses it with
  \<open>ValueError\<close>, and so does \<open>solve_sudoku\<close>.
\<close>

theorem duplicate_given_unsat_witness:
  "cell (\<lambda>a. if a = 0 then [3, 3, 0, 0] else [0, 0, 0, 0]) [0, 1, 2, 3] 0 0 = Inr 3
   \<and> cell (\<lambda>a. if a = 0 then [3, 3, 0, 0] else [0, 0, 0, 0]) [0, 1, 2, 3] 0 1 = Inr 3
   \<and> \<not> pysat_model [- 1, - 2, 3, - 4, - 5, - 6, - 7, 8, 9, - 10, - 11, - 12, - 13, 14, - 15, - 16, 17, - 18, - 19, - 20, - 21, 22, - 23, - 24, - 25, - 26, 27, - 28, - 29, - 30, - 31, 32, - 33, 34, - 35, - 36, 37, - 38, - 39, - 40, - 41, - 42, - 43, 44, - 45, - 46, 47, - 48, - 49, - 50, - 51, 52, - 53, - 54, 55, - 56, - 57, 58, - 59, - 60, 61, - 62, - 63, - 64]
        (case sudoku_cnf (\<lambda>a. if a = 0 then [3, 3, 0, 0] else [0, 0, 0, 0]) [0, 1, 2, 3] of
           Inr c \<Rightarrow> c | Inl er \<Rightarrow> [])
   \<and> map_sum id (\<lambda>(h', sol). view h' sol)
        (solve_sudoku (\<lambda>cnf. Inr None) (\<lambda>a. if a = 0 then [3, 3, 0, 0] else [0, 0, 0, 0]) [0, 1, 2, 3])
       = Inr [[3, 3, 0, 0], [0, 0, 0, 0], [0, 0, 0, 0], [0, 0, 0, 0]]
   \<and> cell (\<lambda>a. if a = 0 then [3, 3, - 8, 0] else [0, 0, 0, 0]) [0, 1, 2, 3] 0 0 = Inr 3
   \<and> cell (\<lambda>a. if a = 0 then [3, 3, - 8, 0] else [0, 0, 0, 0]) [0, 1, 2, 3] 0 1 = Inr 3
   \<and> [0] \<in> set (case sudoku_cnf (\<lambda>a. if a = 0 then [3, 3, - 8, 0] else [0, 0, 0, 0]) [0, 1, 2, 3] of
                    Inr c \<Rightarrow> c | Inl er \<Rightarrow> [])
   \<and> map_sum id (\<lambda>(h', sol). view h' sol)
        (solve_sudoku (\<lambda>cnf. Inl ValueError) (\<lambda>a. if a = 0 then [3, 3, - 8, 0] else [0, 0, 0, 0]) [0, 1, 2, 3])
       = Inl ValueError"
proof -
  let ?m = "[- 1, - 2, 3, - 4, - 5, - 6, - 7, 8, 9, - 10, - 11, - 12, - 13, 14, - 15, - 16, 17, - 18, - 19, - 20, - 21, 22, - 23, - 24, - 25, - 26, 27, - 28, - 29, - 30, - 31, 32, - 33, 34, - 35, - 36, 37, - 38, - 39, - 40, - 41, - 42, - 43, 44, - 45, - 46, 47, - 48, - 49, - 50, - 51, 52, - 53, - 54, 55, - 56, - 57, 58, - 59, - 60, 61, - 62, - 63, - 64] :: int list"
  let ?h = "\<lambda>a::nat. if a = 0 then [3, 3, 0, 0] else [0, 0, 0, 0 :: int]"
  let ?k = "\<lambda>a::nat. if a = 0 then [3, 3, - 8, 0] else [0, 0, 0, 0 :: int]"
  let ?g = "[0, 1, 2, 3 :: nat]"
  let ?cnf = "case sudoku_cnf ?h ?g of Inr c \<Rightarrow> c | Inl er \<Rightarrow> []"
  let ?cnk = "case sudoku_cnf ?k ?g of Inr c \<Rightarrow> c | Inl er \<Rightarrow> []"
  have cnf: "sudoku_cnf ?h ?g = Inr ?cnf" by code_simp
  have cnk: "sudoku_cnf ?k ?g = Inr ?cnk" by code_simp
  have b: "(0::int) \<le> 0" "0 < len ?g" "(0::int) \<le> 0" "0 < len ?g" "(0::int) \<le> 1" "1 < len ?g"
    "(0::int) \<noteq> 1" by (simp_all add: len_def)
  have g1: "cell ?h ?g 0 0 = Inr 3" by code_simp
  have g2: "cell ?h ?g 0 1 = Inr 3" by code_simp
  have k1: "cell ?k ?g 0 0 = Inr 3" by code_simp
  have k2: "cell ?k ?g 0 1 = Inr 3" by code_simp
  have z: "[0] \<in> set ?cnk" by code_simp
  have v: "(1::int) \<le> 3" "3 \<le> len ?g" by (simp_all add: len_def)
  from duplicate_given_unsat [OF cnf b g1 g2 v]
  have "\<not> pysat_model ?m ?cnf" and "solve_sudoku (\<lambda>cnf. Inr None) ?h ?g = Inr (?h, ?g)"
    by simp_all
  moreover from duplicate_given_unsat [OF cnk b k1 k2 v]
  have "solve_sudoku (\<lambda>cnf. Inl ValueError) ?k ?g = Inl ValueError"
    by simp
  ultimately show ?thesis using g1 g2 k1 k2 z by (simp add: view_def)
qed

text \<open>
  Claim C5 as stated fails when the repeated value is not in \<open>1..n\<close>.  In a 4-by-4
  grid, the value 5 in columns 1 and 3 of row 0 yields the unit clauses 9 and 17,
  which are the literals "cell (0, 2) holds 1" and "cell (1, 0) holds 1"; the clause
  list has a model and the puzzle is solved.
\<close>

theorem out_of_range_duplicate_sat:
  "cell (\<lambda>a. if a = 0 then [0, 5, 0, 5] else [0, 0, 0, 0]) [0, 1, 2, 3] 0 1 = Inr 5
   \<and> cell (\<lambda>a. if a = 0 then [0, 5, 0, 5] else [0, 0, 0, 0]) [0, 1, 2, 3] 0 3 = Inr 5
   \<and> sudoku_cnf (\<lambda>a. if a = 0 then [0, 5, 0, 5] else [0, 0, 0, 0]) [0, 1, 2, 3]
       = Inr (case sudoku_cnf (\<lambda>a. if a = 0 then [0, 5, 0, 5] else [0, 0, 0, 0]) [0, 1, 2, 3] of
                Inr c \<Rightarrow> c | Inl er \<Rightarrow> [])
   \<and> pysat_model [- 1, - 2, 3, - 4, - 5, - 6, - 7, 8, 9, - 10, - 11, - 12, - 13, 14, - 15, - 16, 17, - 18, - 19, - 20, - 21, 22, - 23, - 24, - 25, - 26, 27, - 28, - 29, - 30, - 31, 32, - 33, 34, - 35, - 36, 37, - 38, - 39, - 40, - 41, - 42, - 43, 44, - 45, - 46, 47, - 48, - 49, - 50, - 51, 52, - 53, - 54, 55, - 56, - 57, 58, - 59, - 60, 61, - 62, - 63, - 64]
        (case sudoku_cnf (\<lambda>a. if a = 0 then [0, 5, 0, 5] else [0, 0, 0, 0]) [0, 1, 2, 3] of
           Inr c \<Rightarrow> c | Inl er \<Rightarrow> [])
   \<and> map_sum id (\<lambda>(h', sol). view h' sol)
        (solve_sudoku (\<lambda>cnf. Inr (Some [- 1, - 2, 3, - 4, - 5, - 6, - 7, 8, 9, - 10, - 11, - 12, - 13, 14, - 15, - 16, 17, - 18, - 19, - 20, - 21, 22, - 23, - 24, - 25, - 26, 27, - 28, - 29, - 30, - 31, 32, - 33, 34, - 35, - 36, 37, - 38, - 39, - 40, - 41, - 42, - 43, 44, - 45, - 46, 47, - 48, - 49, - 50, - 51, 52, - 53, - 54, 55, - 56, - 57, 58, - 59, - 60, 61, - 62, - 63, - 64]))
           (\<lambda>a. if a = 0 then [0, 5, 0, 5] else [0, 0, 0, 0]) [0, 1, 2, 3])
       = Inr [[3, 4, 1, 2], [1, 2, 3, 4], [2, 1, 4, 3], [4, 3, 2, 1]]"
  by code_simp

section \<open>Decoding a model with no true literal\<close>

lemma sudoku_cell_kept:
  assumes d: "distinct g" and cnf: "sudoku_cnf h g = Inr cnf" and sol: "solver cnf = Inr (Some m)"
    and ln: "len g * len g * len g \<le> len m"
    and b: "0 \<le> r" "r < len g" "0 \<le> c" "c < len g"
    and none: "\<forall>num. 1 \<le> num \<and> num \<le> len g \<longrightarrow> \<not> var_true m (prop_id (len g) r c num)"
    and run: "solve_sudoku solver h g = Inr (h', g)"
  shows "h' (g ! nat r) ! nat c = h (g ! nat r) ! nat c"
proof -
  from sudoku_decode_values [OF d cnf ln] obtain h2 where
    dec: "decode_cells m (len g) g h (cells (len g)) = Inr h2"
    and vals: "\<forall>r c. 0 \<le> r \<and> r < len g \<and> 0 \<le> c \<and> c < len g \<longrightarrow>
                 h2 (g ! nat r) ! nat c =
                   (case first_true m (len g) r c of None \<Rightarrow> h (g ! nat r) ! nat c
                    | Some v \<Rightarrow> v)"
    by blast
  from run cnf sol dec have eq: "h' = h2" by (simp add: solve_sudoku_def Let_def)
  from none have "first_true m (len g) r c = None"
    by (simp add: first_true_def find_None_iff)
  with vals b eq show ?thesis by simp
qed

lemma concat_skip:
  assumes "f t = []"
  shows "concat (map f xs) = concat [f x. x \<leftarrow> xs, x \<noteq> t]"
  using assms by (induction xs) auto

lemma decode_silent:
  assumes "0 \<le> T e" "0 \<le> N e" "0 \<le> M e"
    and "(T e + 1) * N e * M e + 9 * T e \<le> len model"
    and "true_actions model e t = []"
  shows "decode model e =
           Inr (concat [concat [symbol (num - 1). num \<leftarrow> true_actions model e t'].
                        t' \<leftarrow> range_py 0 (T e), t' \<noteq> t])"
proof -
  from assms(5) have "concat [symbol (num - 1). num \<leftarrow> true_actions model e t] = []" by simp
  from concat_skip [where f = "\<lambda>t. concat [symbol (num - 1). num \<leftarrow> true_actions model e t]", OF this]
    decode_eq [OF assms(1-4)]
  show ?thesis by simp
qed

text \<open>
  Claim C8, as amended.  Neither decoder reports anything when a family has no true
  literal.  In the Sudoku decoder, with a model list that covers every variable, the
  call returns normally; when the rows of the grid are list objects of their own, a
  cell none of whose value literals is true keeps the value it had in the input.  In
  the Sokoban decoder, a step none of whose action literals is true contributes no
  symbol and \<open>decode\<close> returns the symbols of the other steps.
\<close>

theorem missing_literal_is_silent:
  "(sudoku_cnf h g = Inr cnf \<and> solver cnf = Inr (Some m)
      \<and> len g * len g * len g \<le> len m
      \<and> 0 \<le> r \<and> r < len g \<and> 0 \<le> c \<and> c < len g
      \<and> (\<forall>num. 1 \<le> num \<and> num \<le> len g \<longrightarrow> \<not> var_true m (prop_id (len g) r c num))
    \<longrightarrow> (\<exists>h'. solve_sudoku solver h g = Inr (h', g)
              \<and> (distinct g \<longrightarrow> h' (g ! nat r) ! nat c = h (g ! nat r) ! nat c)))
   \<and> (0 \<le> T e \<and> 0 \<le> N e \<and> 0 \<le> M e \<and> (T e + 1) * N e * M e + 9 * T e \<le> len model
        \<and> true_actions model e t = []
      \<longrightarrow> decode model e =
            Inr (concat [concat [symbol (num - 1). num \<leftarrow> true_actions model e t'].
                         t' \<leftarrow> range_py 0 (T e), t' \<noteq> t]))"
proof (intro conjI impI)
  assume a: "sudoku_cnf h g = Inr cnf \<and> solver cnf = Inr (Some m)
      \<and> len g * len g * len g \<le> len m
      \<and> 0 \<le> r \<and> r < len g \<and> 0 \<le> c \<and> c < len g
      \<and> (\<forall>num. 1 \<le> num \<and> num \<le> len g \<longrightarrow> \<not> var_true m (prop_id (len g) r c num))"
  then have cnf: "sudoku_cnf h g = Inr cnf" and sol: "solver cnf = Inr (Some m)"
    and ln: "len g * len g * len g \<le> len m"
    and b: "0 \<le> r" "r < len g" "0 \<le> c" "c < len g"
    and none: "\<forall>num. 1 \<le> num \<and> num \<le> len g \<longrightarrow> \<not> var_true m (prop_id (len g) r c num)"
    by simp_all
  from sudoku_decode_returns [where solver = solver, OF cnf sol ln] obtain h' where
    run: "solve_sudoku solver h g = Inr (h', g)" by blast
  have "distinct g \<longrightarrow> h' (g ! nat r) ! nat c = h (g ! nat r) ! nat c"
    using sudoku_cell_kept [where solver = solver, OF _ cnf sol ln b none run] by blast
  with run show "\<exists>h'. solve_sudoku solver h g = Inr (h', g)
      \<and> (distinct g \<longrightarrow> h' (g ! nat r) ! nat c = h (g ! nat r) ! nat c)" by blast
next
  assume "0 \<le> T e \<and> 0 \<le> N e \<and> 0 \<le> M e \<and> (T e + 1) * N e * M e + 9 * T e \<le> len model
        \<and> true_actions model e t = []"
  then show "decode model e =
            Inr (concat [concat [symbol (num - 1). num \<leftarrow> true_actions model e t'].
                         t' \<leftarrow> range_py 0 (T e), t' \<noteq> t])"
    using decode_silent [of e model t] by blast
qed

text \<open>
  The amended claim at a 1-by-1 Sudoku grid with the model \<open>[-1]\<close>, and at a 1-by-1
  Sokoban instance with horizon 0 and a model that makes every action variable false.
\<close>

theorem missing_literal_is_silent_witness:
  "(\<exists>h'. solve_sudoku (\<lambda>cnf. Inr (Some [- 1])) (\<lambda>a. [0]) [0] = Inr (h', [0]) \<and> h' 0 ! 0 = 0)
   \<and> decode [- 1, 2, - 3, - 4, - 5, - 6, - 7, - 8, - 9, - 10, - 11]
         \<lparr>grid = [[''P'']], T = 1, N = 1, M = 1, goals = [], boxes = [], walls = [],
            player_start = Some (0, 0), num_boxes = 0\<rparr> = Inr []"
proof -
  let ?m = "[- 1, 2, - 3, - 4, - 5, - 6, - 7, - 8, - 9, - 10, - 11 :: int]"
  let ?e = "\<lparr>grid = [[''P'']], T = 1, N = 1, M = 1, goals = [], boxes = [], walls = [],
            player_start = Some (0, 0), num_boxes = 0\<rparr>"
  let ?s = "\<lambda>cnf::int list list. Inr (Some [- 1]) :: error + int list option"
  have cnf: "sudoku_cnf (\<lambda>a. [0]) [0] = Inr [[1], [1], [1], [1]]" by code_simp
  have none: "\<forall>num. 1 \<le> num \<and> num \<le> len [0::nat] \<longrightarrow> \<not> var_true [- 1] (prop_id (len [0::nat]) 0 0 num)"
    by (auto simp: len_def var_true_def prop_id_def)
  have a: "sudoku_cnf (\<lambda>a. [0]) [0] = Inr [[1], [1], [1], [1]]
      \<and> ?s [[1], [1], [1], [1::int]] = Inr (Some [- 1 :: int])
      \<and> len [0::nat] * len [0::nat] * len [0::nat] \<le> len [- 1 :: int]
      \<and> (0::int) \<le> 0 \<and> 0 < len [0::nat] \<and> (0::int) \<le> 0 \<and> 0 < len [0::nat]
      \<and> (\<forall>num. 1 \<le> num \<and> num \<le> len [0::nat] \<longrightarrow> \<not> var_true [- 1] (prop_id (len [0::nat]) 0 0 num))"
    using cnf none by (simp add: len_def)
  have ta: "true_actions ?m ?e 0 = []" by code_simp
  have b: "0 \<le> T ?e \<and> 0 \<le> N ?e \<and> 0 \<le> M ?e \<and> (T ?e + 1) * N ?e * M ?e + 9 * T ?e \<le> len ?m
        \<and> true_actions ?m ?e 0 = []"
    using ta by (simp add: len_def)
  have r: "concat [concat [symbol (num - 1). num \<leftarrow> true_actions ?m ?e t'].
                         t' \<leftarrow> range_py 0 (T ?e), t' \<noteq> 0] = []"
    by code_simp
  note t = missing_literal_is_silent [where g = "[0]" and h = "\<lambda>a. [0]" and cnf = "[[1], [1], [1], [1]]"
      and solver = ?s and m = "[- 1]" and r = 0 and c = 0
      and e = ?e and model = ?m and t = 0]
  from t [THEN conjunct1, rule_format, OF a] obtain h' where
    run: "solve_sudoku ?s (\<lambda>a. [0]) [0] = Inr (h', [0])"
    and kept: "distinct [0::nat] \<longrightarrow> h' ([0] ! nat 0) ! nat 0 = (\<lambda>a. [0::int]) ([0::nat] ! nat 0) ! nat 0"
    by (elim exE conjE)
  from kept have k: "h' 0 ! 0 = 0" by simp
  from t [THEN conjunct2, rule_format, OF b]
  have d: "decode ?m ?e = Inr []" unfolding r .
  from run k have "\<exists>h'. solve_sudoku ?s (\<lambda>a. [0]) [0] = Inr (h', [0]) \<and> h' 0 ! 0 = 0"
    by (intro exI conjI)
  from this d show ?thesis by (rule conjI)
qed

text \<open>
  Claim C8 as stated fails at both: the Sudoku call returns the input grid
  \<open>[[0]]\<close> as if it were the answer, and \<open>decode\<close> returns the empty plan, which
  \<open>solve_sokoban\<close> hands to its caller.  Neither program has a decode error.
\<close>

theorem decoders_return_normally:
  "first_true [- 1] 1 0 0 = None
   \<and> map_sum id (\<lambda>(h', sol). view h' sol) (solve_sudoku (\<lambda>cnf. Inr (Some [- 1])) (\<lambda>a. [0]) [0]) = Inr [[0]]
   \<and> true_actions [- 1, 2, - 3, - 4, - 5, - 6, - 7, - 8, - 9, - 10, - 11]
         \<lparr>grid = [[''P'']], T = 1, N = 1, M = 1, goals = [], boxes = [], walls = [],
            player_start = Some (0, 0), num_boxes = 0\<rparr> 0 = []
   \<and> decode [- 1, 2, - 3, - 4, - 5, - 6, - 7, - 8, - 9, - 10, - 11]
         \<lparr>grid = [[''P'']], T = 1, N = 1, M = 1, goals = [], boxes = [], walls = [],
            player_start = Some (0, 0), num_boxes = 0\<rparr> = Inr []
   \<and> solve_sokoban (\<lambda>cnf. Some [- 1, 2, - 3, - 4, - 5, - 6, - 7, - 8, - 9, - 10, - 11])
         [[''P'']] 0 = Inr (Moves [])"
  by code_simp

section \<open>The variable index scheme\<close>

lemma var_goal_Inr:
  "var_goal e x y = Inr v \<longleftrightarrow>
     0 \<le> x \<and> x < N e \<and> 0 \<le> y \<and> y < M e \<and> v = (x * M e + y) + 1"
  by (auto simp: var_goal_def)

lemma var_player_Inr:
  "var_player e x y t = Inr v \<longleftrightarrow>
     0 \<le> x \<and> x < N e \<and> 0 \<le> y \<and> y < M e \<and> 0 \<le> t \<and> t < T e
     \<and> v = (t + 1) * (N e * M e) + (x * M e + y) + 1"
  by (auto simp: var_player_def algebra_simps)

lemma var_move_Inr:
  "var_move e num t = Inr v \<longleftrightarrow>
     1 \<le> num \<and> num \<le> 9 \<and> 0 \<le> t \<and> t < T e
     \<and> v = (T e + 1) * (N e * M e) + (t * 9 + (num - 1)) + 1"
  by (auto simp: var_move_def algebra_simps)

lemma var_box_Inr:
  "var_box e b x y t = Inr v \<longleftrightarrow>
     1 \<le> b \<and> b \<le> num_boxes e \<and> 0 \<le> x \<and> x < N e \<and> 0 \<le> y \<and> y < M e \<and> 0 \<le> t \<and> t < T e
     \<and> v = (T e + 1) * (N e * M e) + 9 * T e
           + ((t * num_boxes e + (b - 1)) * (N e * M e) + (x * M e + y)) + 1"
  by (auto simp: var_box_def algebra_simps)

lemma cell_bound:
  "0 \<le> x \<Longrightarrow> x < N e \<Longrightarrow> 0 \<le> y \<Longrightarrow> y < M e
     \<Longrightarrow> 0 \<le> x * M e + y \<and> x * M e + y < N e * M e"
  by (rule pair_bound)

lemma cell_inj:
  "0 \<le> y \<Longrightarrow> y < M e \<Longrightarrow> 0 \<le> y' \<Longrightarrow> y' < M e
     \<Longrightarrow> x * M e + y = x' * M e + y' \<Longrightarrow> x = x' \<and> y = y'"
  by (rule pair_inj)

lemma cell_surj:
  assumes "0 \<le> k" "k < N e * M e" "0 \<le> N e" "0 \<le> M e"
  shows "\<exists>x y. 0 \<le> x \<and> x < N e \<and> 0 \<le> y \<and> y < M e \<and> k = x * M e + y"
proof -
  from assms have "0 < M e" by (cases "M e = 0") auto
  from pair_surj [OF this assms(1,2)] show ?thesis .
qed

lemma var_goal_inj:
  assumes "var_goal e x y = Inr v" "var_goal e x' y' = Inr v"
  shows "x = x' \<and> y = y'"
proof -
  from assms have b: "0 \<le> y" "y < M e" "0 \<le> y'" "y' < M e"
    and eq: "x * M e + y = x' * M e + y'"
    by (simp_all add: var_goal_Inr)
  from cell_inj [OF b eq] show ?thesis .
qed

lemma var_player_inj:
  assumes "var_player e x y t = Inr v" "var_player e x' y' t' = Inr v"
  shows "x = x' \<and> y = y' \<and> t = t'"
proof -
  from assms have b: "0 \<le> x" "x < N e" "0 \<le> y" "y < M e" "0 \<le> x'" "x' < N e" "0 \<le> y'" "y' < M e"
    and eq: "(t + 1) * (N e * M e) + (x * M e + y) = (t' + 1) * (N e * M e) + (x' * M e + y')"
    by (simp_all add: var_player_Inr)
  from cell_bound [OF b(1-4)] cell_bound [OF b(5-8)]
  have k: "0 \<le> x * M e + y" "x * M e + y < N e * M e" "0 \<le> x' * M e + y'" "x' * M e + y' < N e * M e"
    by simp_all
  from pair_inj [OF k eq] have "t = t'" and "x * M e + y = x' * M e + y'" by simp_all
  with cell_inj [OF b(3,4,7,8)] show ?thesis by simp
qed

lemma var_move_inj:
  assumes "var_move e num t = Inr v" "var_move e num' t' = Inr v"
  shows "num = num' \<and> t = t'"
proof -
  from assms have b: "0 \<le> num - 1" "num - 1 < 9" "0 \<le> num' - 1" "num' - 1 < 9"
    and eq: "t * 9 + (num - 1) = t' * 9 + (num' - 1)"
    by (simp_all add: var_move_Inr)
  from pair_inj [OF b eq] show ?thesis by simp
qed

lemma var_box_inj:
  assumes "var_box e b x y t = Inr v" "var_box e b' x' y' t' = Inr v"
  shows "b = b' \<and> x = x' \<and> y = y' \<and> t = t'"
proof -
  from assms have c: "0 \<le> x" "x < N e" "0 \<le> y" "y < M e" "0 \<le> x'" "x' < N e" "0 \<le> y'" "y' < M e"
    and bb: "0 \<le> b - 1" "b - 1 < num_boxes e" "0 \<le> b' - 1" "b' - 1 < num_boxes e"
    and eq: "(t * num_boxes e + (b - 1)) * (N e * M e) + (x * M e + y)
             = (t' * num_boxes e + (b' - 1)) * (N e * M e) + (x' * M e + y')"
    by (simp_all add: var_box_Inr)
  from cell_bound [OF c(1-4)] cell_bound [OF c(5-8)]
  have k: "0 \<le> x * M e + y" "x * M e + y < N e * M e" "0 \<le> x' * M e + y'" "x' * M e + y' < N e * M e"
    by simp_all
  from pair_inj [OF k eq] have tb: "t * num_boxes e + (b - 1) = t' * num_boxes e + (b' - 1)"
    and xy: "x * M e + y = x' * M e + y'" by simp_all
  from pair_inj [OF bb tb] cell_inj [OF c(3,4,7,8) xy] show ?thesis by simp
qed

lemma goal_ids_eq:
  assumes "0 \<le> N e" "0 \<le> M e"
  shows "goal_ids e = {1..N e * M e}"
proof (rule set_eqI)
  fix v
  show "v \<in> goal_ids e \<longleftrightarrow> v \<in> {1..N e * M e}"
  proof
    assume "v \<in> goal_ids e"
    then obtain x y where "var_goal e x y = Inr v" by (auto simp: goal_ids_def)
    then have b: "0 \<le> x" "x < N e" "0 \<le> y" "y < M e" and v: "v = (x * M e + y) + 1"
      by (simp_all add: var_goal_Inr)
    from cell_bound [OF b] v show "v \<in> {1..N e * M e}" by simp
  next
    assume "v \<in> {1..N e * M e}"
    then have "0 \<le> v - 1" "v - 1 < N e * M e" by simp_all
    from cell_surj [OF this assms] obtain x y where
      "0 \<le> x" "x < N e" "0 \<le> y" "y < M e" "v - 1 = x * M e + y" by blast
    then have "var_goal e x y = Inr v" by (simp add: var_goal_Inr)
    then show "v \<in> goal_ids e" by (auto simp: goal_ids_def)
  qed
qed

lemma player_ids_eq:
  assumes "0 \<le> N e" "0 \<le> M e"
  shows "player_ids e = {N e * M e + 1..(T e + 1) * (N e * M e)}"
proof (rule set_eqI)
  fix v
  let ?C = "N e * M e"
  show "v \<in> player_ids e \<longleftrightarrow> v \<in> {?C + 1..(T e + 1) * ?C}"
  proof
    assume "v \<in> player_ids e"
    then obtain x y t where "var_player e x y t = Inr v" by (auto simp: player_ids_def)
    then have b: "0 \<le> x" "x < N e" "0 \<le> y" "y < M e" and t: "0 \<le> t" "t < T e"
      and v: "v = (t + 1) * ?C + (x * M e + y) + 1"
      by (simp_all add: var_player_Inr)
    from cell_bound [OF b] have k: "0 \<le> x * M e + y" "x * M e + y < ?C" by simp_all
    from pair_bound [OF t k] have "0 \<le> t * ?C + (x * M e + y)" "t * ?C + (x * M e + y) < T e * ?C"
      by simp_all
    with v show "v \<in> {?C + 1..(T e + 1) * ?C}" by (simp add: algebra_simps)
  next
    assume "v \<in> {?C + 1..(T e + 1) * ?C}"
    then have w: "0 \<le> v - 1 - ?C" "v - 1 - ?C < T e * ?C" by (simp_all add: algebra_simps)
    then have "0 < ?C" using assms by (cases "?C = 0") (auto simp: zero_le_mult_iff)
    from pair_surj [OF this w] obtain t k where
      t: "0 \<le> t" "t < T e" and k: "0 \<le> k" "k < ?C" and e1: "v - 1 - ?C = t * ?C + k" by blast
    from cell_surj [OF k assms] obtain x y where
      b: "0 \<le> x" "x < N e" "0 \<le> y" "y < M e" and e2: "k = x * M e + y" by blast
    from e1 e2 have "v = (t + 1) * ?C + (x * M e + y) + 1" by (simp add: algebra_simps)
    with b t have "var_player e x y t = Inr v" by (simp add: var_player_Inr)
    then show "v \<in> player_ids e" by (auto simp: player_ids_def)
  qed
qed

lemma move_ids_eq:
  "move_ids e = {(T e + 1) * (N e * M e) + 1..(T e + 1) * (N e * M e) + 9 * T e}"
proof (rule set_eqI)
  fix v
  let ?B = "(T e + 1) * (N e * M e)"
  show "v \<in> move_ids e \<longleftrightarrow> v \<in> {?B + 1..?B + 9 * T e}"
  proof
    assume "v \<in> move_ids e"
    then obtain num t where "var_move e num t = Inr v" by (auto simp: move_ids_def)
    then have t: "0 \<le> t" "t < T e" and n: "0 \<le> num - 1" "num - 1 < 9"
      and v: "v = ?B + (t * 9 + (num - 1)) + 1"
      by (simp_all add: var_move_Inr)
    from pair_bound [OF t n] v show "v \<in> {?B + 1..?B + 9 * T e}" by simp
  next
    assume "v \<in> {?B + 1..?B + 9 * T e}"
    then have w: "0 \<le> v - 1 - ?B" "v - 1 - ?B < T e * 9" by simp_all
    from pair_surj [OF _ w] obtain t k where
      t: "0 \<le> t" "t < T e" and k: "0 \<le> k" "k < 9" and e1: "v - 1 - ?B = t * 9 + k" by auto
    then have "var_move e (k + 1) t = Inr v" by (simp add: var_move_Inr)
    then show "v \<in> move_ids e" by (auto simp: move_ids_def)
  qed
qed

lemma box_ids_eq:
  assumes "0 \<le> N e" "0 \<le> M e" "0 \<le> num_boxes e"
  shows "box_ids e = {(T e + 1) * (N e * M e) + 9 * T e + 1
                      ..(T e + 1) * (N e * M e) + 9 * T e + T e * num_boxes e * (N e * M e)}"
proof (rule set_eqI)
  fix v
  let ?C = "N e * M e"
  let ?B = "(T e + 1) * ?C + 9 * T e"
  show "v \<in> box_ids e \<longleftrightarrow> v \<in> {?B + 1..?B + T e * num_boxes e * ?C}"
  proof
    assume "v \<in> box_ids e"
    then obtain b x y t where "var_box e b x y t = Inr v" by (auto simp: box_ids_def)
    then have c: "0 \<le> x" "x < N e" "0 \<le> y" "y < M e" and t: "0 \<le> t" "t < T e"
      and bb: "0 \<le> b - 1" "b - 1 < num_boxes e"
      and v: "v = ?B + ((t * num_boxes e + (b - 1)) * ?C + (x * M e + y)) + 1"
      by (simp_all add: var_box_Inr)
    from cell_bound [OF c] have k: "0 \<le> x * M e + y" "x * M e + y < ?C" by simp_all
    from pair_bound [OF t bb] have a: "0 \<le> t * num_boxes e + (b - 1)"
      "t * num_boxes e + (b - 1) < T e * num_boxes e" by simp_all
    from pair_bound [OF a k] v show "v \<in> {?B + 1..?B + T e * num_boxes e * ?C}" by simp
  next
    assume "v \<in> {?B + 1..?B + T e * num_boxes e * ?C}"
    then have w: "0 \<le> v - 1 - ?B" "v - 1 - ?B < T e * num_boxes e * ?C" by simp_all
    have C0: "0 \<le> ?C" using assms by simp
    from w have "?C \<noteq> 0" by auto
    with C0 have Cp: "0 < ?C" by linarith
    from pair_surj [OF Cp w] obtain a k where
      a: "0 \<le> a" "a < T e * num_boxes e" and k: "0 \<le> k" "k < ?C" and e1: "v - 1 - ?B = a * ?C + k"
      by blast
    from a have "num_boxes e \<noteq> 0" by auto
    with assms(3) have Bp: "0 < num_boxes e" by linarith
    from pair_surj [OF Bp a] obtain t b where
      t: "0 \<le> t" "t < T e" and b: "0 \<le> b" "b < num_boxes e" and e2: "a = t * num_boxes e + b"
      by blast
    from cell_surj [OF k assms(1,2)] obtain x y where
      c: "0 \<le> x" "x < N e" "0 \<le> y" "y < M e" and e3: "k = x * M e + y" by blast
    from e1 e2 e3 have "v = ?B + ((t * num_boxes e + ((b + 1) - 1)) * ?C + (x * M e + y)) + 1"
      by simp
    with c t b have "var_box e (b + 1) x y t = Inr v" by (simp add: var_box_Inr)
    then show "v \<in> box_ids e" by (auto simp: box_ids_def)
  qed
qed

lemma prop_ids_eq:
  assumes "0 \<le> n"
  shows "prop_ids n = {1..n * n * n}"
proof (rule set_eqI)
  fix v
  show "v \<in> prop_ids n \<longleftrightarrow> v \<in> {1..n * n * n}"
  proof
    assume "v \<in> prop_ids n"
    then obtain r c num where "0 \<le> r" "r < n" "0 \<le> c" "c < n" "1 \<le> num" "num \<le> n"
      and v: "v = prop_id n r c num" by (auto simp: prop_ids_def)
    from prop_id_bounds [OF this(1-6)] v show "v \<in> {1..n * n * n}" by simp
  next
    assume "v \<in> {1..n * n * n}"
    then have w: "0 \<le> v - 1" "v - 1 < n * n * n" by simp_all
    then have "n \<noteq> 0" by auto
    with assms have np: "0 < n" by linarith
    from pair_surj [OF np w] obtain a k where
      a: "0 \<le> a" "a < n * n" and k: "0 \<le> k" "k < n" and e1: "v - 1 = a * n + k" by blast
    from pair_surj [OF np a] obtain r c where
      rc: "0 \<le> r" "r < n" "0 \<le> c" "c < n" and e2: "a = r * n + c" by blast
    from e1 e2 have "v = prop_id n r c (k + 1)" by (simp add: prop_id_def)
    with rc k show "v \<in> prop_ids n" unfolding prop_ids_def
      by (intro CollectI exI [of _ r] exI [of _ c] exI [of _ "k + 1"]) simp
  qed
qed

text \<open>
  Claim C2.  For an encoder with non-negative dimensions, horizon and box count:
  each of \<open>var_goal\<close>, \<open>var_player\<close>, \<open>var_move\<close> and \<open>var_box\<close> is injective
  on the arguments it accepts, and \<open>prop\<close> is injective on the cells and values of
  the grid and fills \<open>1 .. n * n * n\<close>.  The goal identifiers fill \<open>1 .. N * M\<close>;
  after them come, each filling the next interval with no gap, the player positions,
  then the actions, then the box positions, up to \<open>total_var_count\<close>.  Hence the
  four ranges are pairwise disjoint and their union is \<open>1 .. total_var_count\<close>.
\<close>

theorem variable_ids_bijective:
  assumes "0 \<le> N e" "0 \<le> M e" "0 \<le> T e" "0 \<le> num_boxes e" "0 \<le> n"
  shows "(\<forall>x y x' y' v. var_goal e x y = Inr v \<and> var_goal e x' y' = Inr v \<longrightarrow> x = x' \<and> y = y')
    \<and> (\<forall>x y t x' y' t' v. var_player e x y t = Inr v \<and> var_player e x' y' t' = Inr v
          \<longrightarrow> x = x' \<and> y = y' \<and> t = t')
    \<and> (\<forall>num t num' t' v. var_move e num t = Inr v \<and> var_move e num' t' = Inr v
          \<longrightarrow> num = num' \<and> t = t')
    \<and> (\<forall>b x y t b' x' y' t' v. var_box e b x y t = Inr v \<and> var_box e b' x' y' t' = Inr v
          \<longrightarrow> b = b' \<and> x = x' \<and> y = y' \<and> t = t')
    \<and> (\<forall>r c num r' c' num'.
          0 \<le> c \<and> c < n \<and> 1 \<le> num \<and> num \<le> n \<and> 0 \<le> c' \<and> c' < n \<and> 1 \<le> num' \<and> num' \<le> n
          \<and> prop_id n r c num = prop_id n r' c' num' \<longrightarrow> r = r' \<and> c = c' \<and> num = num')
    \<and> prop_ids n = {1..n * n * n}
    \<and> goal_ids e = {1..N e * M e}
    \<and> player_ids e = {N e * M e + 1..(T e + 1) * (N e * M e)}
    \<and> move_ids e = {(T e + 1) * (N e * M e) + 1..(T e + 1) * (N e * M e) + 9 * T e}
    \<and> box_ids e = {(T e + 1) * (N e * M e) + 9 * T e + 1..total_var_count e}
    \<and> goal_ids e \<union> player_ids e \<union> move_ids e \<union> box_ids e = {1..total_var_count e}
    \<and> goal_ids e \<inter> player_ids e = {} \<and> goal_ids e \<inter> move_ids e = {}
    \<and> goal_ids e \<inter> box_ids e = {} \<and> player_ids e \<inter> move_ids e = {}
    \<and> player_ids e \<inter> box_ids e = {} \<and> move_ids e \<inter> box_ids e = {}"
proof -
  let ?a = "N e * M e"
  let ?b = "(T e + 1) * ?a"
  let ?c = "?b + 9 * T e"
  let ?d = "?c + T e * num_boxes e * ?a"
  have a0: "0 \<le> ?a" using assms by simp
  have "0 \<le> T e * ?a" using assms by simp
  then have ab: "?a \<le> ?b" by (simp add: algebra_simps)
  have bc: "?b \<le> ?c" using assms by simp
  have "0 \<le> T e * num_boxes e * ?a" using assms by simp
  then have cd: "?c \<le> ?d" by simp
  have tot: "total_var_count e = ?d" by (simp add: total_var_count_def algebra_simps)
  have g: "goal_ids e = {1..?a}" by (rule goal_ids_eq) fact+
  have p: "player_ids e = {?a + 1..?b}" by (rule player_ids_eq) fact+
  have m: "move_ids e = {?b + 1..?c}" by (rule move_ids_eq)
  have b: "box_ids e = {?c + 1..?d}" by (rule box_ids_eq) fact+
  have un: "{1..?a} \<union> {?a + 1..?b} \<union> {?b + 1..?c} \<union> {?c + 1..?d} = {1..?d}"
    using a0 ab bc cd by auto
  have dj: "{1..?a} \<inter> {?a + 1..?b} = {}" "{1..?a} \<inter> {?b + 1..?c} = {}"
    "{1..?a} \<inter> {?c + 1..?d} = {}" "{?a + 1..?b} \<inter> {?b + 1..?c} = {}"
    "{?a + 1..?b} \<inter> {?c + 1..?d} = {}" "{?b + 1..?c} \<inter> {?c + 1..?d} = {}"
    using a0 ab bc cd by auto
  show ?thesis
  proof (intro conjI)
    show "\<forall>x y x' y' v. var_goal e x y = Inr v \<and> var_goal e x' y' = Inr v \<longrightarrow> x = x' \<and> y = y'"
      using var_goal_inj by blast
    show "\<forall>x y t x' y' t' v. var_player e x y t = Inr v \<and> var_player e x' y' t' = Inr v
          \<longrightarrow> x = x' \<and> y = y' \<and> t = t'"
      using var_player_inj by blast
    show "\<forall>num t num' t' v. var_move e num t = Inr v \<and> var_move e num' t' = Inr v
          \<longrightarrow> num = num' \<and> t = t'"
      using var_move_inj by blast
    show "\<forall>b x y t b' x' y' t' v. var_box e b x y t = Inr v \<and> var_box e b' x' y' t' = Inr v
          \<longrightarrow> b = b' \<and> x = x' \<and> y = y' \<and> t = t'"
      using var_box_inj by blast
    show "\<forall>r c num r' c' num'.
          0 \<le> c \<and> c < n \<and> 1 \<le> num \<and> num \<le> n \<and> 0 \<le> c' \<and> c' < n \<and> 1 \<le> num' \<and> num' \<le> n
          \<and> prop_id n r c num = prop_id n r' c' num' \<longrightarrow> r = r' \<and> c = c' \<and> num = num'"
      using prop_id_inj by blast
    show "prop_ids n = {1..n * n * n}" by (rule prop_ids_eq) fact
    show "goal_ids e = {1..?a}" by (rule g)
    show "player_ids e = {?a + 1..?b}" by (rule p)
    show "move_ids e = {?b + 1..?c}" by (rule m)
    show "box_ids e = {?c + 1..total_var_count e}" unfolding tot by (rule b)
    show "goal_ids e \<union> player_ids e \<union> move_ids e \<union> box_ids e = {1..total_var_count e}"
      unfolding g p m b tot by (rule un)
    show "goal_ids e \<inter> player_ids e = {}" unfolding g p by (rule dj)
    show "goal_ids e \<inter> move_ids e = {}" unfolding g m by (rule dj)
    show "goal_ids e \<inter> box_ids e = {}" unfolding g b by (rule dj)
    show "player_ids e \<inter> move_ids e = {}" unfolding p m by (rule dj)
    show "player_ids e \<inter> box_ids e = {}" unfolding p b by (rule dj)
    show "move_ids e \<inter> box_ids e = {}" unfolding m b by (rule dj)
  qed
qed

text \<open>
  The claim at a 2-by-3 grid with one box and \<open>T = 2\<close>, and at a 4-by-4 Sudoku.
\<close>

theorem variable_ids_bijective_witness:
  "goal_ids \<lparr>grid = [], T = 2, N = 2, M = 3, goals = [], boxes = [], walls = [],
             player_start = None, num_boxes = 1\<rparr> = {1..6}
   \<and> player_ids \<lparr>grid = [], T = 2, N = 2, M = 3, goals = [], boxes = [], walls = [],
             player_start = None, num_boxes = 1\<rparr> = {7..18}
   \<and> move_ids \<lparr>grid = [], T = 2, N = 2, M = 3, goals = [], boxes = [], walls = [],
             player_start = None, num_boxes = 1\<rparr> = {19..36}
   \<and> box_ids \<lparr>grid = [], T = 2, N = 2, M = 3, goals = [], boxes = [], walls = [],
             player_start = None, num_boxes = 1\<rparr> = {37..48}
   \<and> total_var_count \<lparr>grid = [], T = 2, N = 2, M = 3, goals = [], boxes = [], walls = [],
             player_start = None, num_boxes = 1\<rparr> = 48
   \<and> prop_ids 4 = {1..64}"
proof -
  let ?e = "\<lparr>grid = [], T = 2, N = 2, M = 3, goals = [], boxes = [], walls = [],
             player_start = None, num_boxes = 1\<rparr>"
  have h: "0 \<le> N ?e" "0 \<le> M ?e" "0 \<le> T ?e" "0 \<le> num_boxes ?e" "(0::int) \<le> 4" by simp_all
  have t: "total_var_count ?e = 48" by (simp add: total_var_count_def)
  from variable_ids_bijective [OF h] show ?thesis unfolding t by simp
qed

section \<open>Clauses of the Sokoban encoding\<close>

lemma holds_Nil [simp]: "holds \<sigma> [] = False"
  by (simp add: holds_def)

lemma holds_Cons [simp]:
  "holds \<sigma> (Inr v # c) = (lit_holds \<sigma> v \<or> holds \<sigma> c)"
  "holds \<sigma> (Inl er # c) = holds \<sigma> c"
  by (simp_all add: holds_def)

lemma neg_Inr [simp]: "neg (Inr v) = Inr (- v)"
  by (simp add: neg_def)

lemma var_box_pos: "var_box e b x y t = Inr v \<Longrightarrow> 0 < v"
proof -
  assume "var_box e b x y t = Inr v"
  then have c: "0 \<le> x" "x < N e" "0 \<le> y" "y < M e" and t: "0 \<le> t" "t < T e"
    and bb: "0 \<le> b - 1" "b - 1 < num_boxes e"
    and v: "v = (T e + 1) * (N e * M e) + 9 * T e
           + ((t * num_boxes e + (b - 1)) * (N e * M e) + (x * M e + y)) + 1"
    by (simp_all add: var_box_Inr)
  from cell_bound [OF c] have k: "0 \<le> x * M e + y" "x * M e + y < N e * M e" by simp_all
  from pair_bound [OF t bb] have a: "0 \<le> t * num_boxes e + (b - 1)" by simp
  from a k have "0 \<le> (t * num_boxes e + (b - 1)) * (N e * M e)" by simp
  moreover from t k have "0 \<le> (T e + 1) * (N e * M e)" by simp
  ultimately show "0 < v" using v t k by linarith
qed

lemma var_player_pos: "var_player e x y t = Inr v \<Longrightarrow> 0 < v"
proof -
  assume "var_player e x y t = Inr v"
  then have c: "0 \<le> x" "x < N e" "0 \<le> y" "y < M e" and t: "0 \<le> t" "t < T e"
    and v: "v = (t + 1) * (N e * M e) + (x * M e + y) + 1"
    by (simp_all add: var_player_Inr)
  from cell_bound [OF c] have k: "0 \<le> x * M e + y" "x * M e + y < N e * M e" by simp_all
  from t k have "0 \<le> (t + 1) * (N e * M e)" by simp
  with v k show "0 < v" by linarith
qed

lemma var_move_pos: "0 \<le> N e \<Longrightarrow> 0 \<le> M e \<Longrightarrow> var_move e num t = Inr v \<Longrightarrow> 0 < v"
proof -
  assume d: "0 \<le> N e" "0 \<le> M e" and "var_move e num t = Inr v"
  then have t: "0 \<le> t" "t < T e" and n: "1 \<le> num"
    and v: "v = (T e + 1) * (N e * M e) + (t * 9 + (num - 1)) + 1"
    by (simp_all add: var_move_Inr)
  from d t have "0 \<le> (T e + 1) * (N e * M e)" by simp
  with v t n show "0 < v" by linarith
qed

lemma in_set_comp2_dep:
  "a \<in> set xs \<Longrightarrow> b \<in> set (ys a) \<Longrightarrow> f a b \<in> set [f x y. x \<leftarrow> xs, y \<leftarrow> ys x]"
  by auto

lemma exactly_one_pair:
  "i < j \<Longrightarrow> j < length cl \<Longrightarrow> [neg (cl ! i), neg (cl ! j)] \<in> set (exactly_one cl)"
  unfolding exactly_one_def
  by (rule list.set_intros(2),
      rule in_set_comp2_dep [where f = "\<lambda>n nd. [neg (cl ! n), neg (cl ! nd)]"]) simp_all

lemma holds_swap: "holds \<sigma> [a, b] = holds \<sigma> [b, a]"
  by (auto simp: holds_def)

lemma exactly_one_excl:
  assumes ex: "\<forall>c \<in> set (exactly_one cl). holds \<sigma> c"
    and a: "a \<in> set cl" and b: "b \<in> set cl" and ne: "a \<noteq> b"
  shows "holds \<sigma> [neg a, neg b]"
proof -
  from a obtain i where i: "i < length cl" "cl ! i = a" by (auto simp: in_set_conv_nth)
  from b obtain j where j: "j < length cl" "cl ! j = b" by (auto simp: in_set_conv_nth)
  from ne i j have "i \<noteq> j" by auto
  then consider "i < j" | "j < i" by linarith
  then show ?thesis
  proof cases
    case 1
    from exactly_one_pair [OF 1 j(1)] ex i j show ?thesis by auto
  next
    case 2
    from exactly_one_pair [OF 2 i(1)] ex i j have "holds \<sigma> [neg b, neg a]" by auto
    then show ?thesis by (simp only: holds_swap)
  qed
qed

lemma box_cells_mem:
  "0 \<le> px \<Longrightarrow> px < N e \<Longrightarrow> 0 \<le> py \<Longrightarrow> py < M e
     \<Longrightarrow> var_box e (box + 1) px py t \<in> set (box_cells e box t)"
  unfolding box_cells_def
  by (rule in_set_comp2 [where f = "\<lambda>x y. var_box e (box + 1) x y t"]) simp_all

lemma uniqueness_box:
  "0 \<le> box \<Longrightarrow> box < num_boxes e
     \<Longrightarrow> set (exactly_one (box_cells e box t)) \<subseteq> set (uniqueness e t)"
  by (auto simp: uniqueness_def)

lemma push_frame_clauses_elim:
  assumes "c \<in> set (push_frame_clauses e x y t move new_x new_y box)"
  shows "\<exists>px py. c = push_frame_clause e x y t move box px py
           \<and> 0 \<le> px \<and> px < N e \<and> 0 \<le> py \<and> py < M e \<and> (px, py) \<noteq> (new_x, new_y)"
  using assms by (fastforce simp: push_frame_clauses_def split: if_splits)

lemma holds_single: "holds \<sigma> [l] \<Longrightarrow> \<exists>v. l = Inr v \<and> lit_holds \<sigma> v"
  by (cases l) simp_all

lemma holds_mono: "holds \<sigma> c \<Longrightarrow> set c \<subseteq> set c' \<Longrightarrow> holds \<sigma> c'"
  by (auto simp: holds_def)

lemma push_clauses_mem:
  assumes new: "step_dir move x y = (new_x, new_y)"
    and nxt: "step_dir move new_x new_y = (box_x, box_y)"
    and on: "0 \<le> new_x" "new_x < N e" "0 \<le> new_y" "new_y < M e"
            "0 \<le> box_x" "box_x < N e" "0 \<le> box_y" "box_y < M e"
    and b: "0 \<le> box" "box < num_boxes e"
  shows "push_moved_clause e x y t move new_x new_y box_x box_y box \<in> set (push_clauses e x y t move)"
    and "set (push_frame_clauses e x y t move new_x new_y box) \<subseteq> set (push_clauses e x y t move)"
  using on b by (auto simp: push_clauses_def new nxt)

text \<open>
  Claim C3.  Take a push in direction \<open>move\<close> at step \<open>t\<close> from the player's cell
  \<open>(x, y)\<close>, with \<open>(new_x, new_y)\<close> the cell ahead and \<open>(box_x, box_y)\<close> the cell
  beyond it on the grid, and an assignment that makes the uniqueness clauses of step
  \<open>t - 1\<close> true, takes that push, has the player at \<open>(x, y)\<close> and box \<open>box + 1\<close>
  at the cell ahead at \<open>t - 1\<close>.  Then the guard of every frame clause of that box (the
  box at another cell at \<open>t - 1\<close>) is false, so all its frame clauses are true
  whatever the assignment says about step \<open>t\<close>, while its moved clause is true
  exactly when the box is at the cell beyond at \<open>t\<close>.  Changing only the variables of
  that box at step \<open>t\<close>, so that it is at the cell beyond and nowhere else, makes
  the moved clause and all frame clauses true together.  These are the clauses
  \<open>encode\<close> emits for the push.
\<close>

theorem push_frame_guards_exclusive:
  assumes new: "step_dir move x y = (new_x, new_y)"
    and nxt: "step_dir move new_x new_y = (box_x, box_y)"
    and on: "0 \<le> box_x" "box_x < N e" "0 \<le> box_y" "box_y < M e"
    and uniq: "\<forall>c \<in> set (uniqueness e (t - 1)). holds \<sigma> c"
    and mv: "holds \<sigma> [var_move e (move + 5) t]"
    and pl: "holds \<sigma> [var_player e x y (t - 1)]"
    and bx: "holds \<sigma> [var_box e (box + 1) new_x new_y (t - 1)]"
  shows "(\<forall>px py. 0 \<le> px \<and> px < N e \<and> 0 \<le> py \<and> py < M e \<and> (px, py) \<noteq> (new_x, new_y)
            \<longrightarrow> holds \<sigma> [neg (var_box e (box + 1) px py (t - 1))])
    \<and> (\<forall>c \<in> set (push_frame_clauses e x y t move new_x new_y box). holds \<sigma> c)
    \<and> (holds \<sigma> (push_moved_clause e x y t move new_x new_y box_x box_y box)
          \<longleftrightarrow> holds \<sigma> [var_box e (box + 1) box_x box_y t])
    \<and> (\<exists>\<sigma>'. (\<forall>v. (\<forall>px py. var_box e (box + 1) px py t \<noteq> Inr v) \<longrightarrow> \<sigma>' v = \<sigma> v)
          \<and> holds \<sigma>' (push_moved_clause e x y t move new_x new_y box_x box_y box)
          \<and> (\<forall>c \<in> set (push_frame_clauses e x y t move new_x new_y box). holds \<sigma>' c)
          \<and> (\<forall>px py v. var_box e (box + 1) px py t = Inr v
                \<longrightarrow> \<sigma>' v = ((px, py) = (box_x, box_y))))
    \<and> push_moved_clause e x y t move new_x new_y box_x box_y box \<in> set (push_clauses e x y t move)
    \<and> set (push_frame_clauses e x y t move new_x new_y box) \<subseteq> set (push_clauses e x y t move)"
proof -
  from holds_single [OF bx] obtain vn where
    vn: "var_box e (box + 1) new_x new_y (t - 1) = Inr vn" and ln: "lit_holds \<sigma> vn" by blast
  from holds_single [OF mv] obtain vm where
    vm: "var_move e (move + 5) t = Inr vm" and lm: "lit_holds \<sigma> vm" by blast
  from holds_single [OF pl] obtain vp where
    vp: "var_player e x y (t - 1) = Inr vp" and lp: "lit_holds \<sigma> vp" by blast
  from vn have nb: "0 \<le> new_x" "new_x < N e" "0 \<le> new_y" "new_y < M e"
    and bb: "1 \<le> box + 1" "box + 1 \<le> num_boxes e" and t1: "0 \<le> t - 1" "t - 1 < T e"
    by (simp_all add: var_box_Inr)
  from vm have t: "0 \<le> t" "t < T e" by (simp_all add: var_move_Inr)
  from nb have dims: "0 \<le> N e" "0 \<le> M e" by simp_all
  from var_box_pos [OF vn] ln have sn: "\<sigma> vn" by simp
  from var_move_pos [OF dims vm] lm have sm: "\<sigma> vm" by simp
  from var_player_pos [OF vp] lp have sp: "\<sigma> vp" by simp
  have prev: "\<exists>v. var_box e (box + 1) px py (t - 1) = Inr v \<and> 0 < v \<and> \<not> \<sigma> v"
    if c: "0 \<le> px" "px < N e" "0 \<le> py" "py < M e" and ne: "(px, py) \<noteq> (new_x, new_y)" for px py
  proof -
    from c bb t1 obtain v where v: "var_box e (box + 1) px py (t - 1) = Inr v"
      by (simp add: var_box_Inr)
    from var_box_inj [OF v, of "box + 1" new_x new_y "t - 1"] vn ne have "v \<noteq> vn" by auto
    then have d: "Inr vn \<noteq> (Inr v :: lit)" by simp
    from bb have "0 \<le> box" "box < num_boxes e" by simp_all
    from uniqueness_box [OF this, of "t - 1"] uniq
    have ex: "\<forall>c \<in> set (exactly_one (box_cells e box (t - 1))). holds \<sigma> c" by blast
    have "Inr vn \<in> set (box_cells e box (t - 1))" "Inr v \<in> set (box_cells e box (t - 1))"
      using box_cells_mem [OF nb, of box "t - 1"] box_cells_mem [OF c, of box "t - 1"] vn v
      by simp_all
    from exactly_one_excl [OF ex this d] have "holds \<sigma> [neg (Inr vn), neg (Inr v)]" .
    with sn var_box_pos [OF vn] var_box_pos [OF v] have "\<not> \<sigma> v" by simp
    with v var_box_pos [OF v] show ?thesis by blast
  qed
  have guards: "holds \<sigma> [neg (var_box e (box + 1) px py (t - 1))]"
    if "0 \<le> px \<and> px < N e \<and> 0 \<le> py \<and> py < M e \<and> (px, py) \<noteq> (new_x, new_y)" for px py
  proof -
    from that prev [of px py] obtain v where
      "var_box e (box + 1) px py (t - 1) = Inr v" "0 < v" "\<not> \<sigma> v" by blast
    then show ?thesis by simp
  qed
  have frames: "holds \<sigma>' c"
    if c: "c \<in> set (push_frame_clauses e x y t move new_x new_y box)"
      and same: "\<forall>px py v. var_box e (box + 1) px py (t - 1) = Inr v \<longrightarrow> \<sigma>' v = \<sigma> v"
    for \<sigma>' c
  proof -
    from push_frame_clauses_elim [OF c] obtain px py where
      cc: "c = push_frame_clause e x y t move box px py"
      and b: "0 \<le> px" "px < N e" "0 \<le> py" "py < M e" "(px, py) \<noteq> (new_x, new_y)" by blast
    from prev [OF b] obtain v where
      v: "var_box e (box + 1) px py (t - 1) = Inr v" "0 < v" "\<not> \<sigma> v" by blast
    with same have "\<not> \<sigma>' v" by blast
    with v have "holds \<sigma>' [neg (var_box e (box + 1) px py (t - 1))]" by simp
    then show ?thesis
      by (rule holds_mono) (simp add: cc push_frame_clause_def)
  qed
  from on bb t obtain vx where vx: "var_box e (box + 1) box_x box_y t = Inr vx"
    by (simp add: var_box_Inr)
  have moved: "holds \<sigma>' (push_moved_clause e x y t move new_x new_y box_x box_y box) = \<sigma>' vx"
    if "\<sigma>' vm" "\<sigma>' vp" "\<sigma>' vn" for \<sigma>'
    using that var_move_pos [OF dims vm] var_player_pos [OF vp] var_box_pos [OF vn]
      var_box_pos [OF vx]
    by (simp add: push_moved_clause_def vm vp vn vx)
  define \<sigma>' where "\<sigma>' = (\<lambda>v. if \<exists>px py. var_box e (box + 1) px py t = Inr v then v = vx else \<sigma> v)"
  have s1: "\<forall>v. (\<forall>px py. var_box e (box + 1) px py t \<noteq> Inr v) \<longrightarrow> \<sigma>' v = \<sigma> v"
    by (simp add: \<sigma>'_def)
  have s2: "holds \<sigma>' (push_moved_clause e x y t move new_x new_y box_x box_y box)"
  proof -
    have "\<sigma>' vx" using vx by (auto simp: \<sigma>'_def)
    with var_box_pos [OF vx] have "holds \<sigma>' [var_box e (box + 1) box_x box_y t]"
      by (simp add: vx)
    then show ?thesis by (rule holds_mono) (simp add: push_moved_clause_def)
  qed
  have other: "\<sigma>' v = \<sigma> v" if "var_box e (box + 1) px py (t - 1) = Inr v" for px py v
  proof -
    have "var_box e (box + 1) qx qy t \<noteq> Inr v" for qx qy
      using var_box_inj [OF that, of "box + 1" qx qy t] by auto
    then show ?thesis by (simp add: \<sigma>'_def)
  qed
  have s3: "\<forall>c \<in> set (push_frame_clauses e x y t move new_x new_y box). holds \<sigma>' c"
    using frames [of _ \<sigma>'] other by blast
  have s4: "\<forall>px py v. var_box e (box + 1) px py t = Inr v \<longrightarrow> \<sigma>' v = ((px, py) = (box_x, box_y))"
  proof (intro allI impI)
    fix px py v assume v: "var_box e (box + 1) px py t = Inr v"
    then have "\<sigma>' v = (v = vx)" by (auto simp: \<sigma>'_def)
    also have "(v = vx) = ((px, py) = (box_x, box_y))"
      using var_box_inj [OF v, of "box + 1" box_x box_y t] vx v by auto
    finally show "\<sigma>' v = ((px, py) = (box_x, box_y))" .
  qed
  from bb have b0: "0 \<le> box" "box < num_boxes e" by simp_all
  show ?thesis
  proof (intro conjI)
    show "\<forall>px py. 0 \<le> px \<and> px < N e \<and> 0 \<le> py \<and> py < M e \<and> (px, py) \<noteq> (new_x, new_y)
            \<longrightarrow> holds \<sigma> [neg (var_box e (box + 1) px py (t - 1))]"
      using guards by blast
    show "\<forall>c \<in> set (push_frame_clauses e x y t move new_x new_y box). holds \<sigma> c"
      using frames [of _ \<sigma>] by blast
    show "holds \<sigma> (push_moved_clause e x y t move new_x new_y box_x box_y box)
          \<longleftrightarrow> holds \<sigma> [var_box e (box + 1) box_x box_y t]"
      using moved [OF sm sp sn] var_box_pos [OF vx] by (simp add: vx)
    show "\<exists>\<sigma>'. (\<forall>v. (\<forall>px py. var_box e (box + 1) px py t \<noteq> Inr v) \<longrightarrow> \<sigma>' v = \<sigma> v)
          \<and> holds \<sigma>' (push_moved_clause e x y t move new_x new_y box_x box_y box)
          \<and> (\<forall>c \<in> set (push_frame_clauses e x y t move new_x new_y box). holds \<sigma>' c)
          \<and> (\<forall>px py v. var_box e (box + 1) px py t = Inr v
                \<longrightarrow> \<sigma>' v = ((px, py) = (box_x, box_y)))"
      using s1 s2 s3 s4 by blast
    show "push_moved_clause e x y t move new_x new_y box_x box_y box \<in> set (push_clauses e x y t move)"
      by (rule push_clauses_mem(1) [OF new nxt nb on b0])
    show "set (push_frame_clauses e x y t move new_x new_y box) \<subseteq> set (push_clauses e x y t move)"
      by (rule push_clauses_mem(2) [OF new nxt nb on b0])
  qed
qed

text \<open>
  The claim at the 1-by-3 grid \<open>P B G\<close> with horizon 1 and the assignment of the
  plan "push right": the guard for the cell right of the box is false, the moved
  clause is true, and it is one of the clauses emitted for that push.
\<close>

theorem push_frame_guards_exclusive_witness:
  "holds (var_true [- 1, - 2, 3, 4, - 5, - 6, - 7, 8, - 9, - 10, - 11, - 12, - 13, - 14, - 15,
                    - 16, - 17, 18, - 19, - 20, - 21, - 22, - 23, 24, - 25, - 26, - 27, - 28,
                    29, - 30, - 31, - 32, 33])
     [neg (var_box \<lparr>grid = [[''P'', ''B'', ''G'']], T = 2, N = 1, M = 3, goals = [(0, 2)],
                     boxes = [(0, 1)], walls = [], player_start = Some (0, 0), num_boxes = 1\<rparr>
             (0 + 1) 0 2 (1 - 1))]
   \<and> holds (var_true [- 1, - 2, 3, 4, - 5, - 6, - 7, 8, - 9, - 10, - 11, - 12, - 13, - 14, - 15,
                    - 16, - 17, 18, - 19, - 20, - 21, - 22, - 23, 24, - 25, - 26, - 27, - 28,
                    29, - 30, - 31, - 32, 33])
       (push_moved_clause \<lparr>grid = [[''P'', ''B'', ''G'']], T = 2, N = 1, M = 3, goals = [(0, 2)],
                     boxes = [(0, 1)], walls = [], player_start = Some (0, 0), num_boxes = 1\<rparr>
          0 0 1 1 0 1 0 2 0)
   \<and> push_moved_clause \<lparr>grid = [[''P'', ''B'', ''G'']], T = 2, N = 1, M = 3, goals = [(0, 2)],
                     boxes = [(0, 1)], walls = [], player_start = Some (0, 0), num_boxes = 1\<rparr>
          0 0 1 1 0 1 0 2 0
       \<in> set (push_clauses \<lparr>grid = [[''P'', ''B'', ''G'']], T = 2, N = 1, M = 3, goals = [(0, 2)],
                     boxes = [(0, 1)], walls = [], player_start = Some (0, 0), num_boxes = 1\<rparr>
                 0 0 1 1)"
proof -
  let ?m = "[- 1, - 2, 3, 4, - 5, - 6, - 7, 8, - 9, - 10, - 11, - 12, - 13, - 14, - 15,
                    - 16, - 17, 18, - 19, - 20, - 21, - 22, - 23, 24, - 25, - 26, - 27, - 28,
                    29, - 30, - 31, - 32, 33 :: int]"
  let ?e = "\<lparr>grid = [[''P'', ''B'', ''G'']], T = 2, N = 1, M = 3, goals = [(0, 2)],
                     boxes = [(0, 1)], walls = [], player_start = Some (0, 0), num_boxes = 1\<rparr>"
  have new: "step_dir 1 0 0 = (0, 1)" by (simp add: step_dir_def)
  have nxt: "step_dir 1 0 1 = (0, 2)" by (simp add: step_dir_def)
  have on: "(0::int) \<le> 0" "0 < N ?e" "(0::int) \<le> 2" "2 < M ?e" by simp_all
  have uniq: "\<forall>c \<in> set (uniqueness ?e (1 - 1)). holds (var_true ?m) c" by code_simp
  have mv: "holds (var_true ?m) [var_move ?e (1 + 5) 1]" by code_simp
  have pl: "holds (var_true ?m) [var_player ?e 0 0 (1 - 1)]" by code_simp
  have bx: "holds (var_true ?m) [var_box ?e (0 + 1) 0 1 (1 - 1)]" by code_simp
  have nx: "holds (var_true ?m) [var_box ?e (0 + 1) 0 2 1]" by code_simp
  from push_frame_guards_exclusive [OF new nxt on uniq mv pl bx] nx show ?thesis by simp
qed

section \<open>Longer horizons\<close>

subsection \<open>From clause lists to models and back\<close>

text \<open>
  \<open>collect\<close> succeeds exactly when no identifier call raised, and an assignment
  that makes every clause hold can be written as a model list.
\<close>

lemma collect_clause_map: "collect_clause (map Inr vs) = Inr vs"
  by (induction vs) auto

lemma collect_clause_Inr: "collect_clause c = Inr vs \<Longrightarrow> c = map Inr vs"
proof (induction c arbitrary: vs)
  case Nil
  then show ?case by simp
next
  case (Cons l c)
  show ?case
  proof (cases l)
    case (Inl er)
    with Cons.prems show ?thesis by simp
  next
    case (Inr v)
    with Cons.prems obtain vs' where "collect_clause c = Inr vs'" "vs = v # vs'"
      by (auto split: sum.splits)
    with Cons.IH [of vs'] Inr show ?thesis by simp
  qed
qed

lemma collect_map: "collect (map (map Inr) cnf) = Inr cnf"
  by (induction cnf) (auto simp: collect_clause_map)

lemma collect_Inr: "collect cs = Inr cnf \<Longrightarrow> cs = map (map Inr) cnf"
proof (induction cs arbitrary: cnf)
  case Nil
  then show ?case by simp
next
  case (Cons c cs)
  from Cons.prems obtain vs cnf' where
    "collect_clause c = Inr vs" "collect cs = Inr cnf'" "cnf = vs # cnf'"
    by (auto split: sum.splits)
  with Cons.IH [of cnf'] collect_clause_Inr [of c vs] show ?case by simp
qed

lemma holds_map_Inr: "holds \<sigma> (map Inr vs) = clause_holds \<sigma> vs"
  by (auto simp: holds_def clause_holds_def)

lemma all_Inr_map: "(\<forall>l \<in> set c. \<exists>v. l = Inr v) \<Longrightarrow> map Inr (map projr c) = c"
  by (induction c) auto

lemma sound_collect:
  assumes "\<forall>c \<in> set cs. sound \<sigma> c"
  shows "\<exists>cnf. collect cs = Inr cnf \<and> (\<forall>c \<in> set cnf. clause_holds \<sigma> c)"
proof -
  have eq: "map Inr (map projr c) = c" if "c \<in> set cs" for c
    using that assms by (intro all_Inr_map) (auto simp: sound_def)
  then have "map (map Inr) (map (map projr) cs) = cs"
    by (induction cs) auto
  with collect_map [of "map (map projr) cs"] have c: "collect cs = Inr (map (map projr) cs)"
    by simp
  have "clause_holds \<sigma> vs" if "vs \<in> set (map (map projr) cs)" for vs
  proof -
    from that obtain c where c: "c \<in> set cs" "vs = map projr c" by auto
    with assms have "holds \<sigma> c" by (auto simp: sound_def)
    with eq [OF c(1)] c(2) holds_map_Inr [of \<sigma> vs] show ?thesis by simp
  qed
  with c show ?thesis by blast
qed

lemma collect_holds:
  assumes "collect cs = Inr cnf" "\<forall>c \<in> set cnf. clause_holds \<sigma> c" "c \<in> set cs"
  shows "sound \<sigma> c"
proof -
  from assms(1) have "cs = map (map Inr) cnf" by (rule collect_Inr)
  with assms(3) obtain vs where "vs \<in> set cnf" "c = map Inr vs" by auto
  with assms(2) show ?thesis by (auto simp: sound_def holds_map_Inr)
qed

lemma sum_abs_nonneg: "0 \<le> sum_list (map abs (c :: int list))"
  by (rule sum_list_nonneg) auto

lemma sum_sum_abs_nonneg: "0 \<le> sum_list (map (\<lambda>c :: int list. sum_list (map abs c)) cnf)"
  by (rule sum_list_nonneg) (auto simp: sum_abs_nonneg)

lemma abs_le_sum_list:
  fixes l :: int
  shows "l \<in> set c \<Longrightarrow> \<bar>l\<bar> \<le> sum_list (map abs c)"
proof (induction c)
  case Nil
  then show ?case by simp
next
  case (Cons a c)
  have "0 \<le> sum_list (map abs c)" by (rule sum_list_nonneg) auto
  with Cons show ?case by auto
qed

lemma clause_le_sum_list:
  fixes c :: "int list"
  shows "c \<in> set cnf \<Longrightarrow> sum_list (map abs c) \<le> sum_list (map (\<lambda>c. sum_list (map abs c)) cnf)"
proof (induction cnf)
  case Nil
  then show ?case by simp
next
  case (Cons d cnf)
  from sum_sum_abs_nonneg [of cnf] sum_abs_nonneg [of d] Cons show ?case by auto
qed

lemma model_of_assignment:
  assumes "\<forall>c \<in> set cnf. clause_holds \<sigma> c"
  shows "\<exists>m. pysat_model m cnf"
proof -
  define n where "n = nat (sum_list (map (\<lambda>c. sum_list (map abs c)) cnf))"
  define m where "m = map (\<lambda>i. if \<sigma> (int i + 1) then int i + 1 else - (int i + 1)) [0..<n]"
  have lenm: "length m = n" by (simp add: m_def)
  have lm: "len m = int n" by (simp add: lenm len_def)
  have bound: "\<bar>l\<bar> \<le> int n" if "c \<in> set cnf" "l \<in> set c" for c l
    using abs_le_sum_list [OF that(2)] clause_le_sum_list [OF that(1)] sum_sum_abs_nonneg [of cnf]
    by (simp add: n_def)
  have abs: "map abs m = [1..len m]"
  proof (rule nth_equalityI)
    show "length (map abs m) = length [1..len m]" by (simp add: lm lenm)
    fix i assume "i < length (map abs m)"
    then have i: "i < n" by (simp add: lenm)
    then have "map abs m ! i = int i + 1" by (simp add: m_def)
    moreover from i have "[1..len m] ! i = 1 + int i" by (simp add: lm)
    ultimately show "map abs m ! i = [1..len m] ! i" by simp
  qed
  have vt: "var_true m v = \<sigma> v" if "1 \<le> v" "v \<le> int n" for v
  proof -
    from that have "nat (v - 1) < n" by auto
    then have "m ! nat (v - 1) = (if \<sigma> (int (nat (v - 1)) + 1) then int (nat (v - 1)) + 1
                                 else - (int (nat (v - 1)) + 1))"
      by (simp add: m_def)
    with that show ?thesis by (auto simp: var_true_def lm)
  qed
  have "clause_holds (var_true m) c \<and> (\<forall>l \<in> set c. \<bar>l\<bar> \<le> len m)" if c: "c \<in> set cnf" for c
  proof
    from assms c obtain l where l: "l \<in> set c" "lit_holds \<sigma> l" by (auto simp: clause_holds_def)
    from bound [OF c l(1)] have b: "\<bar>l\<bar> \<le> int n" .
    have "lit_holds (var_true m) l"
    proof (cases "0 < l")
      case True
      with b l(2) vt [of l] show ?thesis by (simp add: lit_holds_def)
    next
      case False
      with l(2) have neg: "l < 0" "\<not> \<sigma> (- l)" by (auto simp: lit_holds_def split: if_splits)
      with b vt [of "- l"] show ?thesis by (simp add: lit_holds_def)
    qed
    with l(1) show "clause_holds (var_true m) c" by (auto simp: clause_holds_def)
    show "\<forall>l \<in> set c. \<bar>l\<bar> \<le> len m" using bound [OF c] by (simp add: lm)
  qed
  with abs have "pysat_model m cnf" by (simp add: pysat_model_def)
  then show ?thesis ..
qed

subsection \<open>The same grid at two horizons\<close>

text \<open>
  Parsing never reads the horizon, so the encoder of the same grid at another horizon
  differs in the field \<open>T\<close> only.  The four identifier ranges are pairwise disjoint.
\<close>

lemma parse_cell_T:
  "parse_cell (e\<lparr>T := t\<rparr>) x y = map_sum id (\<lambda>e'. e'\<lparr>T := t\<rparr>) (parse_cell e x y)"
  by (simp add: parse_cell_def split: sum.splits)

lemma parse_cells_T:
  "parse_cells (e\<lparr>T := t\<rparr>) cs = map_sum id (\<lambda>e'. e'\<lparr>T := t\<rparr>) (parse_cells e cs)"
proof (induction cs arbitrary: e)
  case Nil
  then show ?case by simp
next
  case (Cons xy cs)
  obtain x y where xy: "xy = (x, y)" by (cases xy)
  show ?case
    by (cases "parse_cell e x y") (simp_all add: xy parse_cell_T Cons.IH)
qed

lemma init_horizon:
  assumes "init g k = Inr e"
  shows "init g K = Inr (e\<lparr>T := K + 1\<rparr>)"
proof -
  from init_Inr [OF assms] obtain row0 e1 where
    g0: "get g 0 = Inr row0" and
    p: "parse_cells \<lparr>grid = g, T = k + 1, N = len g, M = len row0, goals = [],
                         boxes = [], walls = [], player_start = None, num_boxes = 0\<rparr>
          [(x, y). x \<leftarrow> range_py 0 (len g), y \<leftarrow> range_py 0 (len row0)] = Inr e1"
    and ee: "e = e1\<lparr>num_boxes := len (boxes e1)\<rparr>"
    by (elim exE conjE)
  from parse_cells_T [where e = "\<lparr>grid = g, T = k + 1, N = len g, M = len row0, goals = [],
                         boxes = [], walls = [], player_start = None, num_boxes = 0\<rparr>"
      and t = "K + 1"
      and cs = "[(x, y). x \<leftarrow> range_py 0 (len g), y \<leftarrow> range_py 0 (len row0)]"] p
  have "parse_cells \<lparr>grid = g, T = K + 1, N = len g, M = len row0, goals = [],
                         boxes = [], walls = [], player_start = None, num_boxes = 0\<rparr>
          [(x, y). x \<leftarrow> range_py 0 (len g), y \<leftarrow> range_py 0 (len row0)] = Inr (e1\<lparr>T := K + 1\<rparr>)"
    by simp
  with g0 ee show ?thesis by (simp add: init_def parse_grid_def)
qed

lemma init_facts:
  assumes "init g k = Inr e"
  shows "T e = k + 1 \<and> 0 \<le> N e \<and> 0 \<le> M e \<and> num_boxes e = len (boxes e)
         \<and> (\<forall>p \<in> set (boxes e) \<union> set (walls e) \<union> set (goals e).
               0 \<le> fst p \<and> fst p < N e \<and> 0 \<le> snd p \<and> snd p < M e)
         \<and> (\<forall>p. player_start e = Some p \<longrightarrow> 0 \<le> fst p \<and> fst p < N e \<and> 0 \<le> snd p \<and> snd p < M e)"
proof -
  from init_Inr [OF assms] obtain row0 e1 where
    g0: "get g 0 = Inr row0" and
    p: "parse_cells \<lparr>grid = g, T = k + 1, N = len g, M = len row0, goals = [],
                         boxes = [], walls = [], player_start = None, num_boxes = 0\<rparr>
          [(x, y). x \<leftarrow> range_py 0 (len g), y \<leftarrow> range_py 0 (len row0)] = Inr e1"
    and ee: "e = e1\<lparr>num_boxes := len (boxes e1)\<rparr>"
    by (elim exE conjE)
  let ?cs = "[(x, y). x \<leftarrow> range_py 0 (len g), y \<leftarrow> range_py 0 (len row0)]"
  have cs: "0 \<le> fst p \<and> fst p < len g \<and> 0 \<le> snd p \<and> snd p < len row0" if "p \<in> set ?cs" for p
    using that by auto
  from parse_cells_fields [OF p] have f: "N e1 = len g" "M e1 = len row0" "T e1 = k + 1"
    and b: "set (boxes e1) \<subseteq> set ?cs" and w: "set (walls e1) \<subseteq> set ?cs"
    and gl: "set (goals e1) \<subseteq> set ?cs"
    and ps: "player_start e1 = None \<or> player_start e1 \<in> Some ` set ?cs"
    by simp_all
  have "0 \<le> len g" "0 \<le> len row0" by (simp_all add: len_def)
  moreover have "0 \<le> fst p \<and> fst p < len g \<and> 0 \<le> snd p \<and> snd p < len row0"
    if "p \<in> set (boxes e1) \<union> set (walls e1) \<union> set (goals e1)" for p
    using that b w gl cs by blast
  moreover have "0 \<le> fst p \<and> fst p < len g \<and> 0 \<le> snd p \<and> snd p < len row0"
    if "player_start e1 = Some p" for p
    using that ps cs by auto
  ultimately show ?thesis using f by (simp add: ee)
qed

lemma init_extends:
  assumes "init g k = Inr e" "0 \<le> k" "k \<le> K"
  shows "extends e (e\<lparr>T := K + 1\<rparr>)"
  using init_facts [OF assms(1)] assms(2,3) by (simp add: extends_def len_def)

lemma ids_disjoint:
  assumes "0 \<le> N e" "0 \<le> M e" "0 \<le> T e" "0 \<le> num_boxes e"
  shows "goal_ids e \<inter> player_ids e = {}" "goal_ids e \<inter> move_ids e = {}"
    "goal_ids e \<inter> box_ids e = {}" "player_ids e \<inter> move_ids e = {}"
    "player_ids e \<inter> box_ids e = {}" "move_ids e \<inter> box_ids e = {}"
proof -
  let ?a = "N e * M e"
  let ?b = "(T e + 1) * ?a"
  let ?c = "?b + 9 * T e"
  let ?d = "?c + T e * num_boxes e * ?a"
  have a0: "0 \<le> ?a" using assms by simp
  have "0 \<le> T e * ?a" using assms by simp
  then have ab: "?a \<le> ?b" by (simp add: algebra_simps)
  have bc: "?b \<le> ?c" using assms by simp
  have g: "goal_ids e = {1..?a}" by (rule goal_ids_eq) fact+
  have p: "player_ids e = {?a + 1..?b}" by (rule player_ids_eq) fact+
  have m: "move_ids e = {?b + 1..?c}" by (rule move_ids_eq)
  have b: "box_ids e = {?c + 1..?d}" by (rule box_ids_eq) fact+
  show "goal_ids e \<inter> player_ids e = {}" unfolding g p by auto
  show "goal_ids e \<inter> move_ids e = {}" unfolding g m using ab by auto
  show "goal_ids e \<inter> box_ids e = {}" unfolding g b using ab bc by auto
  show "player_ids e \<inter> move_ids e = {}" unfolding p m by auto
  show "player_ids e \<inter> box_ids e = {}" unfolding p b using bc by auto
  show "move_ids e \<inter> box_ids e = {}" unfolding m b by auto
qed

subsection \<open>The padded assignment\<close>

text \<open>
  What \<open>pad\<close> gives each kind of variable of the longer encoding: a position
  variable has the value of the same position at the step \<open>min t (T e - 1)\<close>, an
  action variable within the shorter plan keeps its value, and after it only the stay
  is true.
\<close>

lemma extends_dims:
  assumes "extends e e'"
  shows "0 \<le> N e'" "0 \<le> M e'" "0 \<le> T e'" "0 \<le> num_boxes e'"
  using assms by (simp_all add: extends_def)

lemma in_ids:
  "var_goal e x y = Inr v \<Longrightarrow> v \<in> goal_ids e"
  "var_player e x y t = Inr v \<Longrightarrow> v \<in> player_ids e"
  "var_move e num t = Inr v \<Longrightarrow> v \<in> move_ids e"
  "var_box e b x y t = Inr v \<Longrightarrow> v \<in> box_ids e"
  by (auto simp: goal_ids_def player_ids_def move_ids_def box_ids_def)

lemma pad_eval_goal:
  assumes ex: "extends e e'" and v: "var_goal e' x y = Inr v"
  shows "pad e e' \<sigma> v = (\<exists>u. var_goal e x y = Inr u \<and> \<sigma> u)"
proof
  assume "pad e e' \<sigma> v"
  then consider (g) x' y' u where "var_goal e' x' y' = Inr v" "var_goal e x' y' = Inr u" "\<sigma> u"
    | (p) x' y' t' where "var_player e' x' y' t' = Inr v"
    | (m) num t' where "var_move e' num t' = Inr v"
    | (b) b x' y' t' where "var_box e' b x' y' t' = Inr v"
    unfolding pad_def by blast
  then show "\<exists>u. var_goal e x y = Inr u \<and> \<sigma> u"
  proof cases
    case g
    from var_goal_inj [OF v g(1)] g show ?thesis by auto
  next
    case p
    with in_ids(1) [OF v] in_ids(2) [OF p] ids_disjoint(1) [OF extends_dims [OF ex]]
    show ?thesis by blast
  next
    case m
    with in_ids(1) [OF v] in_ids(3) [OF m] ids_disjoint(2) [OF extends_dims [OF ex]]
    show ?thesis by blast
  next
    case b
    with in_ids(1) [OF v] in_ids(4) [OF b] ids_disjoint(3) [OF extends_dims [OF ex]]
    show ?thesis by blast
  qed
next
  assume "\<exists>u. var_goal e x y = Inr u \<and> \<sigma> u"
  with v show "pad e e' \<sigma> v" unfolding pad_def by blast
qed

lemma pad_eval_player:
  assumes ex: "extends e e'" and v: "var_player e' x y t = Inr v"
  shows "pad e e' \<sigma> v = (\<exists>u. var_player e x y (min t (T e - 1)) = Inr u \<and> \<sigma> u)"
proof
  assume "pad e e' \<sigma> v"
  then consider (g) x' y' where "var_goal e' x' y' = Inr v"
    | (p) x' y' t' u where "var_player e' x' y' t' = Inr v"
        "var_player e x' y' (min t' (T e - 1)) = Inr u" "\<sigma> u"
    | (m) num t' where "var_move e' num t' = Inr v"
    | (b) b x' y' t' where "var_box e' b x' y' t' = Inr v"
    unfolding pad_def by blast
  then show "\<exists>u. var_player e x y (min t (T e - 1)) = Inr u \<and> \<sigma> u"
  proof cases
    case g
    with in_ids(2) [OF v] in_ids(1) [OF g] ids_disjoint(1) [OF extends_dims [OF ex]]
    show ?thesis by blast
  next
    case p
    from var_player_inj [OF v p(1)] p show ?thesis by auto
  next
    case m
    with in_ids(2) [OF v] in_ids(3) [OF m] ids_disjoint(4) [OF extends_dims [OF ex]]
    show ?thesis by blast
  next
    case b
    with in_ids(2) [OF v] in_ids(4) [OF b] ids_disjoint(5) [OF extends_dims [OF ex]]
    show ?thesis by blast
  qed
next
  assume "\<exists>u. var_player e x y (min t (T e - 1)) = Inr u \<and> \<sigma> u"
  with v show "pad e e' \<sigma> v" unfolding pad_def by blast
qed

lemma pad_eval_move:
  assumes ex: "extends e e'" and v: "var_move e' num t = Inr v"
  shows "pad e e' \<sigma> v = (if t < T e then (\<exists>u. var_move e num t = Inr u \<and> \<sigma> u) else num = 9)"
proof
  assume "pad e e' \<sigma> v"
  then consider (g) x' y' where "var_goal e' x' y' = Inr v"
    | (p) x' y' t' where "var_player e' x' y' t' = Inr v"
    | (m) num' t' where "var_move e' num' t' = Inr v"
        "if t' < T e then (\<exists>u. var_move e num' t' = Inr u \<and> \<sigma> u) else num' = 9"
    | (b) b x' y' t' where "var_box e' b x' y' t' = Inr v"
    unfolding pad_def by blast
  then show "if t < T e then (\<exists>u. var_move e num t = Inr u \<and> \<sigma> u) else num = 9"
  proof cases
    case g
    with in_ids(3) [OF v] in_ids(1) [OF g] ids_disjoint(2) [OF extends_dims [OF ex]]
    show ?thesis by blast
  next
    case p
    with in_ids(3) [OF v] in_ids(2) [OF p] ids_disjoint(4) [OF extends_dims [OF ex]]
    show ?thesis by blast
  next
    case m
    from var_move_inj [OF v m(1)] m(2) show ?thesis by simp
  next
    case b
    with in_ids(3) [OF v] in_ids(4) [OF b] ids_disjoint(6) [OF extends_dims [OF ex]]
    show ?thesis by blast
  qed
next
  assume "if t < T e then (\<exists>u. var_move e num t = Inr u \<and> \<sigma> u) else num = 9"
  with v show "pad e e' \<sigma> v" unfolding pad_def by blast
qed

lemma pad_eval_box:
  assumes ex: "extends e e'" and v: "var_box e' b x y t = Inr v"
  shows "pad e e' \<sigma> v = (\<exists>u. var_box e b x y (min t (T e - 1)) = Inr u \<and> \<sigma> u)"
proof
  assume "pad e e' \<sigma> v"
  then consider (g) x' y' where "var_goal e' x' y' = Inr v"
    | (p) x' y' t' where "var_player e' x' y' t' = Inr v"
    | (m) num t' where "var_move e' num t' = Inr v"
    | (b) b' x' y' t' u where "var_box e' b' x' y' t' = Inr v"
        "var_box e b' x' y' (min t' (T e - 1)) = Inr u" "\<sigma> u"
    unfolding pad_def by blast
  then show "\<exists>u. var_box e b x y (min t (T e - 1)) = Inr u \<and> \<sigma> u"
  proof cases
    case g
    with in_ids(4) [OF v] in_ids(1) [OF g] ids_disjoint(3) [OF extends_dims [OF ex]]
    show ?thesis by blast
  next
    case p
    with in_ids(4) [OF v] in_ids(2) [OF p] ids_disjoint(5) [OF extends_dims [OF ex]]
    show ?thesis by blast
  next
    case m
    with in_ids(4) [OF v] in_ids(3) [OF m] ids_disjoint(6) [OF extends_dims [OF ex]]
    show ?thesis by blast
  next
    case b
    from var_box_inj [OF v b(1)] b show ?thesis by auto
  qed
next
  assume "\<exists>u. var_box e b x y (min t (T e - 1)) = Inr u \<and> \<sigma> u"
  with v show "pad e e' \<sigma> v" unfolding pad_def by blast
qed

lemma var_goal_pos: "var_goal e x y = Inr v \<Longrightarrow> 0 < v"
proof -
  assume "var_goal e x y = Inr v"
  then have b: "0 \<le> x" "0 \<le> y" "y < M e" and v: "v = (x * M e + y) + 1"
    by (simp_all add: var_goal_Inr)
  from b have "0 \<le> x * M e" by simp
  with b v show ?thesis by linarith
qed

lemma same_goal:
  assumes ex: "extends e e'" and b: "0 \<le> x" "x < N e" "0 \<le> y" "y < M e"
  shows "same \<sigma> (pad e e' \<sigma>) (var_goal e x y) (var_goal e' x y)"
proof -
  from ex have d: "N e' = N e" "M e' = M e" by (simp_all add: extends_def)
  from b obtain u where u: "var_goal e x y = Inr u" by (simp add: var_goal_Inr)
  from b d obtain v where v: "var_goal e' x y = Inr v" by (simp add: var_goal_Inr)
  from pad_eval_goal [OF ex v] u have "pad e e' \<sigma> v = \<sigma> u" by simp
  with u v var_goal_pos [OF u] var_goal_pos [OF v] show ?thesis
    unfolding same_def by blast
qed

lemma same_player:
  assumes ex: "extends e e'" and b: "0 \<le> x" "x < N e" "0 \<le> y" "y < M e"
    and t: "0 \<le> t" "t < T e'"
  shows "same \<sigma> (pad e e' \<sigma>) (var_player e x y (min t (T e - 1))) (var_player e' x y t)"
proof -
  from ex have d: "N e' = N e" "M e' = M e" "1 \<le> T e" by (simp_all add: extends_def)
  from d t have t0: "0 \<le> min t (T e - 1)" "min t (T e - 1) < T e" by simp_all
  from b t0 obtain u where u: "var_player e x y (min t (T e - 1)) = Inr u"
    by (simp add: var_player_Inr)
  from b d t obtain v where v: "var_player e' x y t = Inr v" by (simp add: var_player_Inr)
  from pad_eval_player [OF ex v] u have "pad e e' \<sigma> v = \<sigma> u" by simp
  with u v var_player_pos [OF u] var_player_pos [OF v] show ?thesis
    unfolding same_def by blast
qed

lemma same_box:
  assumes ex: "extends e e'" and b: "0 \<le> x" "x < N e" "0 \<le> y" "y < M e"
    and bx: "1 \<le> b" "b \<le> num_boxes e" and t: "0 \<le> t" "t < T e'"
  shows "same \<sigma> (pad e e' \<sigma>) (var_box e b x y (min t (T e - 1))) (var_box e' b x y t)"
proof -
  from ex have d: "N e' = N e" "M e' = M e" "1 \<le> T e" "num_boxes e' = num_boxes e"
    by (simp_all add: extends_def)
  from d t have t0: "0 \<le> min t (T e - 1)" "min t (T e - 1) < T e" by simp_all
  from b bx t0 obtain u where u: "var_box e b x y (min t (T e - 1)) = Inr u"
    by (simp add: var_box_Inr)
  from b bx d t obtain v where v: "var_box e' b x y t = Inr v" by (simp add: var_box_Inr)
  from pad_eval_box [OF ex v] u have "pad e e' \<sigma> v = \<sigma> u" by simp
  with u v var_box_pos [OF u] var_box_pos [OF v] show ?thesis
    unfolding same_def by blast
qed

lemma same_move:
  assumes ex: "extends e e'" and n: "1 \<le> num" "num \<le> 9" and t: "0 \<le> t" "t < T e"
  shows "same \<sigma> (pad e e' \<sigma>) (var_move e num t) (var_move e' num t)"
proof -
  from ex have d: "0 \<le> N e" "0 \<le> M e" "0 \<le> N e'" "0 \<le> M e'" "T e \<le> T e'"
    by (simp_all add: extends_def)
  from n t obtain u where u: "var_move e num t = Inr u" by (simp add: var_move_Inr)
  from n t d obtain v where v: "var_move e' num t = Inr v" by (simp add: var_move_Inr)
  from pad_eval_move [OF ex v] u t have "pad e e' \<sigma> v = \<sigma> u" by simp
  with u v var_move_pos [OF d(1,2) u] var_move_pos [OF d(3,4) v] show ?thesis
    unfolding same_def by blast
qed

lemma late_move:
  assumes ex: "extends e e'" and n: "1 \<le> num" "num \<le> 9" and t: "T e \<le> t" "t < T e'"
  shows "\<exists>v. var_move e' num t = Inr v \<and> 0 < v \<and> pad e e' \<sigma> v = (num = 9)"
proof -
  from ex have d: "0 \<le> N e'" "0 \<le> M e'" "1 \<le> T e" by (simp_all add: extends_def)
  from n t d obtain v where v: "var_move e' num t = Inr v" by (simp add: var_move_Inr)
  from pad_eval_move [OF ex v] t have "pad e e' \<sigma> v = (num = 9)" by simp
  with v var_move_pos [OF d(1,2) v] show ?thesis by blast
qed

lemma same_imp: "same \<sigma> \<sigma>' l l' \<Longrightarrow> imp \<sigma> \<sigma>' l l'"
  unfolding same_def imp_def by auto

lemma same_imp_neg: "same \<sigma> \<sigma>' l l' \<Longrightarrow> imp \<sigma> \<sigma>' (neg l) (neg l')"
  unfolding same_def imp_def by auto

lemma same_Inr: "same \<sigma> \<sigma>' l l' \<Longrightarrow> \<exists>v. l' = Inr v \<and> 0 < v"
  unfolding same_def by auto

lemma imp_all_Inr:
  assumes "list_all2 (imp \<sigma> \<sigma>') c c'"
  shows "\<forall>k \<in> set c'. \<exists>w. k = Inr w"
  using assms by (induction c c' rule: list_all2_induct) (auto simp: imp_def)

lemma imp_holds:
  assumes "list_all2 (imp \<sigma> \<sigma>') c c'" "holds \<sigma> c"
  shows "holds \<sigma>' c'"
  using assms
proof (induction c c' rule: list_all2_induct)
  case Nil
  then show ?case by simp
next
  case (Cons l c l' c')
  from Cons.hyps(1) obtain u v where l: "l = Inr u" "l' = Inr v"
    and i: "lit_holds \<sigma> u \<longrightarrow> lit_holds \<sigma>' v" unfolding imp_def by blast
  show ?case
  proof (cases "lit_holds \<sigma> u")
    case True
    with i l show ?thesis by simp
  next
    case False
    with Cons.prems l have "holds \<sigma> c" by simp
    from Cons.IH [OF this] l show ?thesis by simp
  qed
qed

lemma imp_sound:
  assumes "list_all2 (imp \<sigma> \<sigma>') c c'" "holds \<sigma> c"
  shows "sound \<sigma>' c'"
  using imp_all_Inr [OF assms(1)] imp_holds [OF assms] by (simp add: sound_def)

lemma list_all2_concat_map:
  assumes "\<And>x. x \<in> set xs \<Longrightarrow> list_all2 P (f x) (g x)"
  shows "list_all2 P (concat (map f xs)) (concat (map g xs))"
  using assms by (induction xs) (auto intro: list_all2_appendI)

lemma list_all2_map_map:
  assumes "\<And>x. x \<in> set xs \<Longrightarrow> P (f x) (g x)"
  shows "list_all2 P (map f xs) (map g xs)"
  using assms by (simp add: list_all2_conv_all_nth)

lemma all2_sound:
  assumes "list_all2 (list_all2 (imp \<sigma> \<sigma>')) cs cs'" "\<forall>c \<in> set cs. holds \<sigma> c"
    "c' \<in> set cs'"
  shows "sound \<sigma>' c'"
proof -
  from assms(3) obtain i where i: "i < length cs'" "cs' ! i = c'"
    by (auto simp: in_set_conv_nth)
  with assms(1) have "list_all2 (imp \<sigma> \<sigma>') (cs ! i) c'" "i < length cs"
    by (auto simp: list_all2_conv_all_nth)
  with assms(2) show ?thesis by (auto intro: imp_sound)
qed

subsection \<open>Clauses at a step of the shorter plan\<close>

text \<open>
  Every clause of the longer encoding at a step of the shorter plan is, literal by
  literal, the clause the shorter encoding has at that step; clauses that mention one
  step only are matched with the clause at the step \<open>min t (T e - 1)\<close>.
\<close>

lemma extends_fields:
  assumes "extends e e'"
  shows "N e' = N e" "M e' = M e" "num_boxes e' = num_boxes e" "goals e' = goals e"
    "boxes e' = boxes e" "walls e' = walls e" "player_start e' = player_start e"
    "1 \<le> T e" "T e \<le> T e'"
  using assms by (simp_all add: extends_def)

lemma same_player_early:
  assumes "extends e e'" "0 \<le> x" "x < N e" "0 \<le> y" "y < M e" "0 \<le> t" "t < T e"
  shows "same \<sigma> (pad e e' \<sigma>) (var_player e x y t) (var_player e' x y t)"
proof -
  from assms have "min t (T e - 1) = t" "t < T e'" by (simp_all add: extends_def)
  with same_player [OF assms(1-6), of \<sigma>] show ?thesis by simp
qed

lemma same_box_early:
  assumes "extends e e'" "0 \<le> x" "x < N e" "0 \<le> y" "y < M e"
    "1 \<le> b" "b \<le> num_boxes e" "0 \<le> t" "t < T e"
  shows "same \<sigma> (pad e e' \<sigma>) (var_box e b x y t) (var_box e' b x y t)"
proof -
  from assms have "min t (T e - 1) = t" "t < T e'" by (simp_all add: extends_def)
  with same_box [OF assms(1-8), of \<sigma>] show ?thesis by simp
qed

lemma wall_transfer:
  assumes ex: "extends e e'" and w: "0 \<le> fst w" "fst w < N e" "0 \<le> snd w" "snd w < M e"
    and t: "0 \<le> t" "t < T e'"
  shows "list_all2 (list_all2 (imp \<sigma> (pad e e' \<sigma>)))
           (wall_clauses e w (min t (T e - 1))) (wall_clauses e' w t)"
  unfolding wall_clauses_def extends_fields(3) [OF ex]
  using ex w t
  by (auto intro!: list_all2_map_map same_imp_neg same_player same_box)

lemma overlap_transfer:
  assumes ex: "extends e e'" and b: "0 \<le> x" "x < N e" "0 \<le> y" "y < M e"
    and bx: "0 \<le> box" "box < num_boxes e" and t: "0 \<le> t" "t < T e'"
  shows "list_all2 (list_all2 (imp \<sigma> (pad e e' \<sigma>)))
           (overlap_clauses e x y box (min t (T e - 1))) (overlap_clauses e' x y box t)"
  unfolding overlap_clauses_def extends_fields(3) [OF ex]
  using ex b bx t
  by (auto intro!: list_all2_map_map same_imp_neg same_player same_box)

lemma final_transfer:
  assumes ex: "extends e e'" and b: "0 \<le> x" "x < N e" "0 \<le> y" "y < M e"
    and bx: "0 \<le> box" "box < num_boxes e"
  shows "list_all2 (imp \<sigma> (pad e e' \<sigma>)) (final_clause e x y box) (final_clause e' x y box)"
proof -
  from ex have t: "0 \<le> T e' - 1" "T e' - 1 < T e'" "min (T e' - 1) (T e - 1) = T e - 1"
    by (simp_all add: extends_def)
  from same_box [OF ex b _ _ t(1,2), of "box + 1" \<sigma>] bx t(3)
  have "same \<sigma> (pad e e' \<sigma>) (var_box e (box + 1) x y (T e - 1))
          (var_box e' (box + 1) x y (T e' - 1))" by simp
  with same_goal [OF ex b, of \<sigma>] show ?thesis
    unfolding final_clause_def by (simp add: same_imp same_imp_neg)
qed

lemma goal_transfer:
  assumes ex: "extends e e'" and b: "0 \<le> x" "x < N e" "0 \<le> y" "y < M e"
  shows "list_all2 (imp \<sigma> (pad e e' \<sigma>)) (goal_clause e x y) (goal_clause e' x y)"
  unfolding goal_clause_def extends_fields(4) [OF ex]
  using same_goal [OF ex b, of \<sigma>] by (simp add: same_imp same_imp_neg)

lemma move_transfer:
  assumes ex: "extends e e'" and b: "0 \<le> x" "x < N e" "0 \<le> y" "y < M e"
    and m: "0 \<le> move" "move < 4" and t: "1 \<le> t" "t < T e"
  shows "list_all2 (list_all2 (imp \<sigma> (pad e e' \<sigma>)))
           (move_clauses e x y move t) (move_clauses e' x y move t)"
  unfolding move_clauses_def extends_fields(1-3) [OF ex]
  using ex b m t
  by (auto simp: Let_def split: prod.splits
      intro!: list_all2_appendI list_all2_map_map same_imp same_imp_neg
        same_player_early same_box_early same_move)

lemma stay_transfer:
  assumes ex: "extends e e'" and b: "0 \<le> x" "x < N e" "0 \<le> y" "y < M e"
    and t: "1 \<le> t" "t < T e"
  shows "list_all2 (list_all2 (imp \<sigma> (pad e e' \<sigma>)))
           (stay_clauses e t x y) (stay_clauses e' t x y)"
  unfolding stay_clauses_def extends_fields(1-3) [OF ex]
  using ex b t
  by (auto intro!: list_all2_appendI list_all2_map_map same_imp same_imp_neg
        same_player_early same_box_early same_move)

lemma one_move_transfer:
  assumes ex: "extends e e'" and t: "0 \<le> t" "t < T e"
  shows "list_all2 (list_all2 (imp \<sigma> (pad e e' \<sigma>))) (one_move e t) (one_move e' t)"
  unfolding one_move_def
  using ex t
  by (auto intro!: list_all2_appendI list_all2_map_map list_all2_concat_map
        same_imp same_imp_neg same_move)

lemma push_player_transfer:
  assumes ex: "extends e e'" and b: "0 \<le> x" "x < N e" "0 \<le> y" "y < M e"
    and n: "0 \<le> nx" "nx < N e" "0 \<le> ny" "ny < M e"
    and m: "0 \<le> move" "move < 4" and bx: "0 \<le> box" "box < num_boxes e"
    and t: "1 \<le> t" "t < T e"
  shows "list_all2 (imp \<sigma> (pad e e' \<sigma>))
           (push_player_clause e x y t move nx ny box)
           (push_player_clause e' x y t move nx ny box)"
  unfolding push_player_clause_def
  using ex b n m bx t
  by (auto intro!: same_imp same_imp_neg same_player_early same_box_early same_move)

lemma push_moved_transfer:
  assumes ex: "extends e e'" and b: "0 \<le> x" "x < N e" "0 \<le> y" "y < M e"
    and n: "0 \<le> nx" "nx < N e" "0 \<le> ny" "ny < M e"
    and c: "0 \<le> bx" "bx < N e" "0 \<le> by" "by < M e"
    and m: "0 \<le> move" "move < 4" and bo: "0 \<le> box" "box < num_boxes e"
    and t: "1 \<le> t" "t < T e"
  shows "list_all2 (imp \<sigma> (pad e e' \<sigma>))
           (push_moved_clause e x y t move nx ny bx by box)
           (push_moved_clause e' x y t move nx ny bx by box)"
  unfolding push_moved_clause_def
  using ex b n c m bo t
  by (auto intro!: same_imp same_imp_neg same_player_early same_box_early same_move)

lemma push_frame_transfer:
  assumes ex: "extends e e'" and b: "0 \<le> x" "x < N e" "0 \<le> y" "y < M e"
    and n: "0 \<le> px" "px < N e" "0 \<le> py" "py < M e"
    and m: "0 \<le> move" "move < 4" and bx: "0 \<le> box" "box < num_boxes e"
    and t: "1 \<le> t" "t < T e"
  shows "list_all2 (imp \<sigma> (pad e e' \<sigma>))
           (push_frame_clause e x y t move box px py)
           (push_frame_clause e' x y t move box px py)"
  unfolding push_frame_clause_def
  using ex b n m bx t
  by (auto intro!: same_imp same_imp_neg same_player_early same_box_early same_move)

lemma push_frames_transfer:
  assumes ex: "extends e e'" and b: "0 \<le> x" "x < N e" "0 \<le> y" "y < M e"
    and m: "0 \<le> move" "move < 4" and bx: "0 \<le> box" "box < num_boxes e"
    and t: "1 \<le> t" "t < T e"
  shows "list_all2 (list_all2 (imp \<sigma> (pad e e' \<sigma>)))
           (push_frame_clauses e x y t move nx ny box)
           (push_frame_clauses e' x y t move nx ny box)"
  unfolding push_frame_clauses_def extends_fields(1-3) [OF ex]
  using push_frame_transfer [OF ex b _ _ _ _ m bx t, of _ _ \<sigma>]
  by (auto intro!: list_all2_concat_map)

lemma push_transfer:
  assumes ex: "extends e e'" and b: "0 \<le> x" "x < N e" "0 \<le> y" "y < M e"
    and m: "0 \<le> move" "move < 4" and t: "1 \<le> t" "t < T e"
  shows "list_all2 (list_all2 (imp \<sigma> (pad e e' \<sigma>)))
           (push_clauses e x y t move) (push_clauses e' x y t move)"
proof -
  obtain nx ny where n: "step_dir move x y = (nx, ny)" by (cases "step_dir move x y")
  obtain bx "by" where c: "step_dir move nx ny = (bx, by)" by (cases "step_dir move nx ny")
  have guard: "list_all2 (imp \<sigma> (pad e e' \<sigma>))
          [neg (var_move e (move + 5) t), neg (var_player e x y (t - 1))]
          [neg (var_move e' (move + 5) t), neg (var_player e' x y (t - 1))]"
    using ex b m t by (auto intro!: same_imp_neg same_player_early same_move)
  show ?thesis
  proof (cases "nx < 0 \<or> ny < 0 \<or> nx \<ge> N e \<or> ny \<ge> M e
         \<or> bx < 0 \<or> by < 0 \<or> bx \<ge> N e \<or> by \<ge> M e")
    case True
    with guard show ?thesis
      by (simp add: push_clauses_def extends_fields(1-3) [OF ex] n c)
  next
    case False
    then have nb: "0 \<le> nx" "nx < N e" "0 \<le> ny" "ny < M e"
      and cb: "0 \<le> bx" "bx < N e" "0 \<le> by" "by < M e" by simp_all
    have last: "list_all2 (imp \<sigma> (pad e e' \<sigma>))
          [var_box e (box + 1) nx ny (t - 1). box \<leftarrow> range_py 0 (num_boxes e)]
          [var_box e' (box + 1) nx ny (t - 1). box \<leftarrow> range_py 0 (num_boxes e)]"
      using ex nb t by (auto intro!: list_all2_map_map same_imp same_box_early)
    have each: "\<And>box. box \<in> set (range_py 0 (num_boxes e)) \<Longrightarrow>
        list_all2 (list_all2 (imp \<sigma> (pad e e' \<sigma>)))
          (push_player_clause e x y t move nx ny box
           # push_moved_clause e x y t move nx ny bx by box
           # push_frame_clauses e x y t move nx ny box)
          (push_player_clause e' x y t move nx ny box
           # push_moved_clause e' x y t move nx ny bx by box
           # push_frame_clauses e' x y t move nx ny box)"
      using push_player_transfer [OF ex b nb m _ _ t, of _ \<sigma>]
        push_moved_transfer [OF ex b nb cb m _ _ t, of _ \<sigma>]
        push_frames_transfer [OF ex b m _ _ t, of _ \<sigma> nx ny]
      by simp
    from False show ?thesis
      by (simp add: push_clauses_def extends_fields(1-3) [OF ex] n c
            del: list_all2_Cons set_range_py,
          intro list_all2_appendI list_all2_concat_map each,
          simp_all add: guard [simplified] last list_all2_appendI del: set_range_py)
  qed
qed

lemma exactly_one_transfer:
  assumes "list_all2 (same \<sigma> \<sigma>') cl cl'"
  shows "list_all2 (list_all2 (imp \<sigma> \<sigma>')) (exactly_one cl) (exactly_one cl')"
proof -
  from assms have len: "length cl' = length cl" by (simp add: list_all2_lengthD)
  from assms have all: "list_all2 (imp \<sigma> \<sigma>') cl cl'"
    by (rule list_all2_mono) (rule same_imp)
  have nth: "\<And>n. n < length cl \<Longrightarrow> imp \<sigma> \<sigma>' (neg (cl ! n)) (neg (cl' ! n))"
    using assms by (auto intro: same_imp_neg dest: list_all2_nthD)
  show ?thesis
    unfolding exactly_one_def len
  proof (rule list.rel_intros(2))
    show "list_all2 (imp \<sigma> \<sigma>') cl cl'" by (rule all)
    show "list_all2 (list_all2 (imp \<sigma> \<sigma>'))
            (concat (map (\<lambda>n. map (\<lambda>nd. [neg (cl ! n), neg (cl ! nd)]) [n + 1..<length cl])
                      [0..<length cl]))
            (concat (map (\<lambda>n. map (\<lambda>nd. [neg (cl' ! n), neg (cl' ! nd)]) [n + 1..<length cl])
                      [0..<length cl]))"
      by (intro list_all2_concat_map list_all2_map_map) (simp add: nth)
  qed
qed

lemma player_cells_transfer:
  assumes ex: "extends e e'" and t: "0 \<le> t" "t < T e'"
  shows "list_all2 (same \<sigma> (pad e e' \<sigma>)) (player_cells e (min t (T e - 1))) (player_cells e' t)"
  unfolding player_cells_def extends_fields(1-3) [OF ex]
  using ex t by (auto intro!: list_all2_concat_map list_all2_map_map same_player)

lemma box_cells_transfer:
  assumes ex: "extends e e'" and t: "0 \<le> t" "t < T e'" and b: "0 \<le> box" "box < num_boxes e"
  shows "list_all2 (same \<sigma> (pad e e' \<sigma>)) (box_cells e box (min t (T e - 1))) (box_cells e' box t)"
  unfolding box_cells_def extends_fields(1-3) [OF ex]
  using ex t b by (auto intro!: list_all2_concat_map list_all2_map_map same_box)

lemma uniqueness_transfer:
  assumes ex: "extends e e'" and t: "0 \<le> t" "t < T e'"
  shows "list_all2 (list_all2 (imp \<sigma> (pad e e' \<sigma>)))
           (uniqueness e (min t (T e - 1))) (uniqueness e' t)"
  unfolding uniqueness_def extends_fields(1-3) [OF ex]
  using ex t
  by (auto intro!: list_all2_appendI list_all2_concat_map exactly_one_transfer
        player_cells_transfer box_cells_transfer)

subsection \<open>Clauses at a step after the shorter plan\<close>

text \<open>
  After the shorter plan every move and push clause holds because its action is
  false, the stay makes the action clauses hold, and a stay clause relates a position to
  itself.
\<close>

lemma neg_ex [simp]: "(\<exists>w. neg l = Inr w) = (\<exists>w. l = Inr w)"
  by (cases l) (simp_all add: neg_def)

lemma var_player_ex: "(\<exists>w. var_player e x y t = Inr w)
    = (0 \<le> x \<and> x < N e \<and> 0 \<le> y \<and> y < M e \<and> 0 \<le> t \<and> t < T e)"
  by (simp add: var_player_Inr)

lemma var_box_ex: "(\<exists>w. var_box e b x y t = Inr w)
    = (1 \<le> b \<and> b \<le> num_boxes e \<and> 0 \<le> x \<and> x < N e \<and> 0 \<le> y \<and> y < M e \<and> 0 \<le> t \<and> t < T e)"
  by (simp add: var_box_Inr)

lemma sound_neg_move:
  assumes "\<exists>v. var_move e' num t = Inr v \<and> 0 < v \<and> \<sigma>' v = False"
    and "\<forall>k \<in> set c. \<exists>w. k = Inr w"
  shows "sound \<sigma>' (neg (var_move e' num t) # c)"
  using assms by (auto simp: sound_def)

lemma move_late:
  assumes ex: "extends e e'" and b: "0 \<le> x" "x < N e" "0 \<le> y" "y < M e"
    and m: "0 \<le> move" "move < 4" and t: "T e \<le> t" "t < T e'"
    and c: "c' \<in> set (move_clauses e' x y move t)"
  shows "sound (pad e e' \<sigma>) c'"
proof -
  from late_move [OF ex _ _ t, of "move + 1" \<sigma>] m
  have mv: "\<exists>v. var_move e' (move + 1) t = Inr v \<and> 0 < v \<and> pad e e' \<sigma> v = False" by simp
  from ex t have t': "0 \<le> t - 1" "0 \<le> t" "t - 1 < T e'" by (simp_all add: extends_def)
  from c show ?thesis
    unfolding move_clauses_def extends_fields(1-3) [OF ex]
    using b m t t' extends_fields(1-3) [OF ex]
    by (auto simp: Let_def var_player_ex var_box_ex split: prod.splits if_splits
        intro!: sound_neg_move mv)
qed

lemma push_late:
  assumes ex: "extends e e'" and b: "0 \<le> x" "x < N e" "0 \<le> y" "y < M e"
    and m: "0 \<le> move" "move < 4" and t: "T e \<le> t" "t < T e'"
    and c: "c' \<in> set (push_clauses e' x y t move)"
  shows "sound (pad e e' \<sigma>) c'"
proof -
  from late_move [OF ex _ _ t, of "move + 5" \<sigma>] m
  have mv: "\<exists>v. var_move e' (move + 5) t = Inr v \<and> 0 < v \<and> pad e e' \<sigma> v = False" by simp
  from ex t have t': "0 \<le> t - 1" "0 \<le> t" "t - 1 < T e'" by (simp_all add: extends_def)
  from c show ?thesis
    unfolding push_clauses_def push_player_clause_def push_moved_clause_def
      push_frame_clauses_def push_frame_clause_def extends_fields(1-3) [OF ex]
    using b m t t' extends_fields(1-3) [OF ex]
    by (auto simp: Let_def var_player_ex var_box_ex split: prod.splits if_splits
        intro!: sound_neg_move mv)
qed

lemma one_move_late:
  assumes ex: "extends e e'" and t: "T e \<le> t" "t < T e'"
    and c: "c' \<in> set (one_move e' t)"
  shows "sound (pad e e' \<sigma>) c'"
proof -
  have mv: "\<And>i. 1 \<le> i \<Longrightarrow> i \<le> 9 \<Longrightarrow>
      \<exists>v. var_move e' i t = Inr v \<and> 0 < v \<and> pad e e' \<sigma> v = (i = 9)"
    using late_move [OF ex _ _ t, of _ \<sigma>] by simp
  from c have "(\<exists>i j. 1 \<le> i \<and> i + 1 \<le> j \<and> j < 10
        \<and> c' = [neg (var_move e' i t), neg (var_move e' j t)])
      \<or> c' = [var_move e' i t. i \<leftarrow> range_py 1 10]"
    unfolding one_move_def by auto blast
  then consider (pair) i j where "1 \<le> i" "i + 1 \<le> j" "j < 10"
      "c' = [neg (var_move e' i t), neg (var_move e' j t)]"
    | (all) "c' = [var_move e' i t. i \<leftarrow> range_py 1 10]"
    by blast
  then show ?thesis
  proof cases
    case pair
    from mv [of i] pair have "\<exists>v. var_move e' i t = Inr v \<and> 0 < v \<and> pad e e' \<sigma> v = False"
      by simp
    moreover from mv [of j] pair have "\<exists>w. var_move e' j t = Inr w" by auto
    ultimately show ?thesis unfolding pair(4) by (intro sound_neg_move) simp_all
  next
    case all
    have ex1: "\<And>i. 1 \<le> i \<Longrightarrow> i < 10 \<Longrightarrow> \<exists>v. var_move e' i t = Inr v"
    proof -
      fix i :: int assume "1 \<le> i" "i < 10"
      with mv [of i] show "\<exists>v. var_move e' i t = Inr v" by auto
    qed
    have inr: "\<forall>l \<in> set c'. \<exists>v. l = Inr v" unfolding all using ex1 by auto
    from mv [of 9] obtain v where v: "var_move e' 9 t = Inr v" "0 < v" "pad e e' \<sigma> v" by auto
    have "Inr v \<in> set c'" unfolding all using v(1) by (auto intro!: image_eqI [where x = 9])
    with v(2,3) have "holds (pad e e' \<sigma>) c'" unfolding holds_def by force
    with inr show ?thesis by (simp add: sound_def)
  qed
qed

lemma stay_late:
  assumes ex: "extends e e'" and b: "0 \<le> x" "x < N e" "0 \<le> y" "y < M e"
    and t: "T e \<le> t" "t < T e'"
    and c: "c' \<in> set (stay_clauses e' t x y)"
  shows "sound (pad e e' \<sigma>) c'"
proof -
  from ex t have t': "0 \<le> t - 1" "0 \<le> t" "t - 1 < T e'"
    and mn: "min (t - 1) (T e - 1) = T e - 1" "min t (T e - 1) = T e - 1"
    by (simp_all add: extends_def)
  from late_move [OF ex _ _ t, of 9 \<sigma>] obtain s where s: "var_move e' 9 t = Inr s" by auto
  have frame: "\<And>l1 l2 l. same \<sigma> (pad e e' \<sigma>) l l1 \<Longrightarrow> same \<sigma> (pad e e' \<sigma>) l l2
      \<Longrightarrow> sound (pad e e' \<sigma>) [neg (var_move e' 9 t), neg l1, l2]"
    unfolding same_def sound_def using s by auto
  from c consider (box) box where "0 \<le> box" "box < num_boxes e"
      "c' = [neg (var_move e' 9 t), neg (var_box e' (box + 1) x y (t - 1)),
             var_box e' (box + 1) x y t]"
    | (player) "c' = [neg (var_move e' 9 t), neg (var_player e' x y (t - 1)),
             var_player e' x y t]"
    unfolding stay_clauses_def extends_fields(1-3) [OF ex] by auto
  then show ?thesis
  proof cases
    case box
    from same_box [OF ex b _ _ t'(1,3), of "box + 1" \<sigma>] same_box [OF ex b _ _ t'(2) t(2), of "box + 1" \<sigma>]
      box(1,2) mn
    show ?thesis unfolding box(3) by (intro frame) simp_all
  next
    case player
    from same_player [OF ex b t'(1,3), of \<sigma>] same_player [OF ex b t'(2) t(2), of \<sigma>] mn
    show ?thesis unfolding player by (intro frame) simp_all
  qed
qed

subsection \<open>The eight sections of the encoding\<close>

lemma in_concat_comp1:
  "a \<in> set xs \<Longrightarrow> c \<in> set (f a) \<Longrightarrow> c \<in> set (concat [f x. x \<leftarrow> xs])"
  by auto

lemma in_concat_comp3:
  "a \<in> set xs \<Longrightarrow> b \<in> set ys \<Longrightarrow> d \<in> set zs \<Longrightarrow> c \<in> set (f a b d)
     \<Longrightarrow> c \<in> set (concat [f x y z. x \<leftarrow> xs, y \<leftarrow> ys, z \<leftarrow> zs])"
  by auto

lemma in_concat_comp4:
  "a \<in> set xs \<Longrightarrow> b \<in> set ys \<Longrightarrow> d \<in> set zs \<Longrightarrow> k \<in> set ws \<Longrightarrow> c \<in> set (f a b d k)
     \<Longrightarrow> c \<in> set (concat [f x y z w. x \<leftarrow> xs, y \<leftarrow> ys, z \<leftarrow> zs, w \<leftarrow> ws])"
  by auto

lemma non_overlap_sound:
  assumes ex: "extends e e'" and hold: "\<forall>c \<in> set (non_overlap e). holds \<sigma> c"
    and c: "c' \<in> set (non_overlap e')"
  shows "sound (pad e e' \<sigma>) c'"
proof -
  from c obtain x y box t where b: "0 \<le> x" "x < N e" "0 \<le> y" "y < M e"
    and bx: "0 \<le> box" "box < num_boxes e" and t: "0 \<le> t" "t < T e'"
    and m: "c' \<in> set (overlap_clauses e' x y box t)"
    unfolding non_overlap_def extends_fields(1-3) [OF ex] by auto
  from ex t have t0: "0 \<le> min t (T e - 1)" "min t (T e - 1) < T e"
    by (simp_all add: extends_def)
  have "\<And>c. c \<in> set (overlap_clauses e x y box (min t (T e - 1)))
      \<Longrightarrow> c \<in> set (non_overlap e)"
    unfolding non_overlap_def
    by (rule in_concat_comp4 [where f = "overlap_clauses e"]) (use b bx t0 in simp_all)
  with hold have "\<forall>c \<in> set (overlap_clauses e x y box (min t (T e - 1))). holds \<sigma> c" by blast
  from all2_sound [OF overlap_transfer [OF ex b bx t] this m] show ?thesis .
qed

lemma goal_conditions_sound:
  assumes ex: "extends e e'" and hold: "\<forall>c \<in> set (goal_conditions e). holds \<sigma> c"
    and c: "c' \<in> set (goal_conditions e')"
  shows "sound (pad e e' \<sigma>) c'"
proof -
  from c obtain x y box where b: "0 \<le> x" "x < N e" "0 \<le> y" "y < M e"
    and bx: "0 \<le> box" "box < num_boxes e" and m: "c' = final_clause e' x y box"
    unfolding goal_conditions_def extends_fields(1-3) [OF ex] by auto
  have "final_clause e x y box \<in> set (goal_conditions e)"
    unfolding goal_conditions_def
    by (rule in_set_comp3 [where f = "final_clause e"]) (use b bx in simp_all)
  with hold have "holds \<sigma> (final_clause e x y box)" by blast
  from imp_sound [OF final_transfer [OF ex b bx] this] m show ?thesis by simp
qed

lemma uniqueness_sound:
  assumes ex: "extends e e'"
    and hold: "\<forall>c \<in> set (concat [uniqueness e t. t \<leftarrow> range_py 0 (T e)]). holds \<sigma> c"
    and c: "c' \<in> set (concat [uniqueness e' t. t \<leftarrow> range_py 0 (T e')])"
  shows "sound (pad e e' \<sigma>) c'"
proof -
  from c obtain t where t: "0 \<le> t" "t < T e'" and m: "c' \<in> set (uniqueness e' t)" by auto
  from ex t have t0: "0 \<le> min t (T e - 1)" "min t (T e - 1) < T e"
    by (simp_all add: extends_def)
  have "\<And>c. c \<in> set (uniqueness e (min t (T e - 1)))
      \<Longrightarrow> c \<in> set (concat [uniqueness e t. t \<leftarrow> range_py 0 (T e)])"
    by (rule in_concat_comp1 [where f = "uniqueness e"]) (use t0 in simp_all)
  with hold have "\<forall>c \<in> set (uniqueness e (min t (T e - 1))). holds \<sigma> c" by blast
  from all2_sound [OF uniqueness_transfer [OF ex t] this m] show ?thesis .
qed

lemma one_move_sound:
  assumes ex: "extends e e'"
    and hold: "\<forall>c \<in> set (concat [one_move e t. t \<leftarrow> range_py 0 (T e)]). holds \<sigma> c"
    and c: "c' \<in> set (concat [one_move e' t. t \<leftarrow> range_py 0 (T e')])"
  shows "sound (pad e e' \<sigma>) c'"
proof -
  from c obtain t where t: "0 \<le> t" "t < T e'" and m: "c' \<in> set (one_move e' t)" by auto
  show ?thesis
  proof (cases "t < T e")
    case True
    have "\<And>c. c \<in> set (one_move e t)
        \<Longrightarrow> c \<in> set (concat [one_move e t. t \<leftarrow> range_py 0 (T e)])"
      by (rule in_concat_comp1 [where f = "one_move e"]) (use t True in simp_all)
    with hold have "\<forall>c \<in> set (one_move e t). holds \<sigma> c" by blast
    from all2_sound [OF one_move_transfer [OF ex t(1) True] this m] show ?thesis .
  next
    case False
    then have "T e \<le> t" by simp
    from one_move_late [OF ex this t(2) m] show ?thesis .
  qed
qed

lemma stay_conditions_sound:
  assumes ex: "extends e e'" and hold: "\<forall>c \<in> set (stay_conditions e). holds \<sigma> c"
    and c: "c' \<in> set (stay_conditions e')"
  shows "sound (pad e e' \<sigma>) c'"
proof -
  from c obtain t x y where b: "0 \<le> x" "x < N e" "0 \<le> y" "y < M e"
    and t: "1 \<le> t" "t < T e'" and m: "c' \<in> set (stay_clauses e' t x y)"
    unfolding stay_conditions_def extends_fields(1-3) [OF ex] by auto
  show ?thesis
  proof (cases "t < T e")
    case True
    have "\<And>c. c \<in> set (stay_clauses e t x y) \<Longrightarrow> c \<in> set (stay_conditions e)"
      unfolding stay_conditions_def
      by (rule in_concat_comp3 [where f = "stay_clauses e"]) (use b t True in simp_all)
    with hold have "\<forall>c \<in> set (stay_clauses e t x y). holds \<sigma> c" by blast
    from all2_sound [OF stay_transfer [OF ex b t(1) True] this m] show ?thesis .
  next
    case False
    then have "T e \<le> t" by simp
    from stay_late [OF ex b this t(2) m] show ?thesis .
  qed
qed

lemma player_movement_sound:
  assumes ex: "extends e e'" and hold: "\<forall>c \<in> set (player_movement e). holds \<sigma> c"
    and c: "c' \<in> set (player_movement e')"
  shows "sound (pad e e' \<sigma>) c'"
proof -
  from c obtain x y move t where b: "0 \<le> x" "x < N e" "0 \<le> y" "y < M e"
    and mv: "0 \<le> move" "move < 4"
    and t: "1 \<le> t" "t < T e'" and m: "c' \<in> set (move_clauses e' x y move t)"
    unfolding player_movement_def extends_fields(1-3) [OF ex] by auto
  show ?thesis
  proof (cases "t < T e")
    case True
    have "\<And>c. c \<in> set (move_clauses e x y move t) \<Longrightarrow> c \<in> set (player_movement e)"
      unfolding player_movement_def
      by (rule in_concat_comp4 [where f = "move_clauses e"]) (use b mv t True in simp_all)
    with hold have "\<forall>c \<in> set (move_clauses e x y move t). holds \<sigma> c" by blast
    from all2_sound [OF move_transfer [OF ex b mv t(1) True] this m] show ?thesis .
  next
    case False
    then have "T e \<le> t" by simp
    from move_late [OF ex b mv this t(2) m] show ?thesis .
  qed
qed

lemma box_movement_sound:
  assumes ex: "extends e e'" and hold: "\<forall>c \<in> set (box_movement e). holds \<sigma> c"
    and c: "c' \<in> set (box_movement e')"
  shows "sound (pad e e' \<sigma>) c'"
proof -
  from c obtain x y t move where b: "0 \<le> x" "x < N e" "0 \<le> y" "y < M e"
    and mv: "0 \<le> move" "move < 4"
    and t: "1 \<le> t" "t < T e'" and m: "c' \<in> set (push_clauses e' x y t move)"
    unfolding box_movement_def extends_fields(1-3) [OF ex] by auto
  show ?thesis
  proof (cases "t < T e")
    case True
    have "\<And>c. c \<in> set (push_clauses e x y t move) \<Longrightarrow> c \<in> set (box_movement e)"
      unfolding box_movement_def
      by (rule in_concat_comp4 [where f = "push_clauses e"]) (use b mv t True in simp_all)
    with hold have "\<forall>c \<in> set (push_clauses e x y t move). holds \<sigma> c" by blast
    from all2_sound [OF push_transfer [OF ex b mv t(1) True] this m] show ?thesis .
  next
    case False
    then have "T e \<le> t" by simp
    from push_late [OF ex b mv this t(2) m] show ?thesis .
  qed
qed

lemma initial_conditions_sound:
  assumes ex: "extends e e'"
    and p: "0 \<le> fst p" "fst p < N e" "0 \<le> snd p" "snd p < M e"
    and nb: "num_boxes e = len (boxes e)"
    and wf: "\<forall>q \<in> set (boxes e) \<union> set (walls e).
               0 \<le> fst q \<and> fst q < N e \<and> 0 \<le> snd q \<and> snd q < M e"
    and hold: "\<forall>c \<in> set (initial_conditions e p). holds \<sigma> c"
    and c: "c' \<in> set (initial_conditions e' p)"
  shows "sound (pad e e' \<sigma>) c'"
proof -
  note f = extends_fields [OF ex]
  from f have z: "0 \<le> (0::int)" "0 < T e'" "0 < T e" "min 0 (T e - 1) = 0" by simp_all
  from c consider (player) "c' = [var_player e' (fst p) (snd p) 0]"
    | (box) box where "0 \<le> box" "box < num_boxes e" "c' = [box_start e' box]"
    | (goal) x y where "0 \<le> x" "x < N e" "0 \<le> y" "y < M e" "c' = goal_clause e' x y"
    | (wall) w t where "w \<in> set (walls e)" "0 \<le> t" "t < T e'" "c' \<in> set (wall_clauses e' w t)"
    | (stay) "c' = [var_move e' 9 0]"
    unfolding initial_conditions_def f(1-3,6) by auto
  then show ?thesis
  proof cases
    case player
    have "holds \<sigma> [var_player e (fst p) (snd p) 0]"
      using hold unfolding initial_conditions_def by simp
    moreover from same_player [OF ex p z(1,2), of \<sigma>] z(4)
    have "list_all2 (imp \<sigma> (pad e e' \<sigma>)) [var_player e (fst p) (snd p) 0] c'"
      unfolding player by (simp add: same_imp)
    ultimately show ?thesis by (rule imp_sound [rotated])
  next
    case box
    let ?q = "boxes e ! nat box"
    from box(1,2) nb have g: "get (boxes e) box = Inr ?q" by simp
    from get_in_set [OF g] wf have q: "0 \<le> fst ?q" "fst ?q < N e" "0 \<le> snd ?q" "snd ?q < M e"
      by auto
    have "[box_start e box] \<in> set (initial_conditions e p)"
      unfolding initial_conditions_def using box(1,2) by simp
    with hold have "holds \<sigma> [box_start e box]" by blast
    moreover from same_box [OF ex q _ _ z(1,2), of "box + 1" \<sigma>] box(1,2) z(4)
    have "list_all2 (imp \<sigma> (pad e e' \<sigma>)) [box_start e box] c'"
      unfolding box(3) box_start_def f(5) g by (simp add: same_imp)
    ultimately show ?thesis by (rule imp_sound [rotated])
  next
    case goal
    have "goal_clause e x y \<in> set [goal_clause e x y. x \<leftarrow> range_py 0 (N e), y \<leftarrow> range_py 0 (M e)]"
      by (rule in_set_comp2 [where f = "goal_clause e"]) (use goal in simp_all)
    then have "goal_clause e x y \<in> set (initial_conditions e p)"
      unfolding initial_conditions_def by simp
    with hold have "holds \<sigma> (goal_clause e x y)" by blast
    from imp_sound [OF goal_transfer [OF ex goal(1-4)] this] goal(5) show ?thesis by simp
  next
    case wall
    from wall(1) wf have w: "0 \<le> fst w" "fst w < N e" "0 \<le> snd w" "snd w < M e" by auto
    from f wall(2,3) have t0: "0 \<le> min t (T e - 1)" "min t (T e - 1) < T e" by simp_all
    have "\<And>c. c \<in> set (wall_clauses e w (min t (T e - 1)))
        \<Longrightarrow> c \<in> set (concat [wall_clauses e w t. w \<leftarrow> walls e, t \<leftarrow> range_py 0 (T e)])"
    proof -
      fix c assume "c \<in> set (wall_clauses e w (min t (T e - 1)))"
      with wall(1) t0 show "c \<in> set (concat [wall_clauses e w t. w \<leftarrow> walls e, t \<leftarrow> range_py 0 (T e)])"
        by (auto intro!: bexI [where x = w] bexI [where x = "min t (T e - 1)"])
    qed
    then have "\<And>c. c \<in> set (wall_clauses e w (min t (T e - 1)))
        \<Longrightarrow> c \<in> set (initial_conditions e p)"
      unfolding initial_conditions_def by simp
    with hold have "\<forall>c \<in> set (wall_clauses e w (min t (T e - 1))). holds \<sigma> c" by blast
    from all2_sound [OF wall_transfer [OF ex w wall(2,3)] this wall(4)] show ?thesis .
  next
    case stay
    have "holds \<sigma> [var_move e 9 0]"
      using hold unfolding initial_conditions_def by simp
    moreover from same_move [OF ex _ _ z(1,3), of 9 \<sigma>]
    have "list_all2 (imp \<sigma> (pad e e' \<sigma>)) [var_move e 9 0] c'"
      unfolding stay by (simp add: same_imp)
    ultimately show ?thesis by (rule imp_sound [rotated])
  qed
qed

lemma encode_lits_sound:
  assumes ex: "extends e e'"
    and p: "0 \<le> fst p" "fst p < N e" "0 \<le> snd p" "snd p < M e"
    and nb: "num_boxes e = len (boxes e)"
    and wf: "\<forall>q \<in> set (boxes e) \<union> set (walls e).
               0 \<le> fst q \<and> fst q < N e \<and> 0 \<le> snd q \<and> snd q < M e"
    and hold: "\<forall>c \<in> set (encode_lits e p). holds \<sigma> c"
    and c: "c' \<in> set (encode_lits e' p)"
  shows "sound (pad e e' \<sigma>) c'"
proof -
  from hold have h: "\<forall>c \<in> set (initial_conditions e p). holds \<sigma> c"
    "\<forall>c \<in> set (player_movement e). holds \<sigma> c"
    "\<forall>c \<in> set (box_movement e). holds \<sigma> c"
    "\<forall>c \<in> set (non_overlap e). holds \<sigma> c"
    "\<forall>c \<in> set (goal_conditions e). holds \<sigma> c"
    "\<forall>c \<in> set (concat [one_move e t. t \<leftarrow> range_py 0 (T e)]). holds \<sigma> c"
    "\<forall>c \<in> set (concat [uniqueness e t. t \<leftarrow> range_py 0 (T e)]). holds \<sigma> c"
    "\<forall>c \<in> set (stay_conditions e). holds \<sigma> c"
    unfolding encode_lits_def by simp_all
  from c consider "c' \<in> set (initial_conditions e' p)" | "c' \<in> set (player_movement e')"
    | "c' \<in> set (box_movement e')" | "c' \<in> set (non_overlap e')"
    | "c' \<in> set (goal_conditions e')"
    | "c' \<in> set (concat [one_move e' t. t \<leftarrow> range_py 0 (T e')])"
    | "c' \<in> set (concat [uniqueness e' t. t \<leftarrow> range_py 0 (T e')])"
    | "c' \<in> set (stay_conditions e')"
    unfolding encode_lits_def set_append by blast
  then show ?thesis
  proof cases
    case 1
    from initial_conditions_sound [OF ex p nb wf h(1) 1] show ?thesis .
  next
    case 2
    from player_movement_sound [OF ex h(2) 2] show ?thesis .
  next
    case 3
    from box_movement_sound [OF ex h(3) 3] show ?thesis .
  next
    case 4
    from non_overlap_sound [OF ex h(4) 4] show ?thesis .
  next
    case 5
    from goal_conditions_sound [OF ex h(5) 5] show ?thesis .
  next
    case 6
    from one_move_sound [OF ex h(6) 6] show ?thesis .
  next
    case 7
    from uniqueness_sound [OF ex h(7) 7] show ?thesis .
  next
    case 8
    from stay_conditions_sound [OF ex h(8) 8] show ?thesis .
  qed
qed

subsection \<open>The driver at the longer horizon\<close>

text \<open>
  A model of the clause list covers every action variable, so \<open>decode\<close> reads
  inside the list.
\<close>

lemma encode_covers:
  assumes enc: "encode e = Inr cnf" and T1: "1 \<le> T e" and d: "0 \<le> N e" "0 \<le> M e"
    and m: "pysat_model m cnf"
  shows "(T e + 1) * N e * M e + 9 * T e \<le> len m"
proof -
  from enc obtain p where col: "collect (encode_lits e p) = Inr cnf"
    by (auto simp: encode_def split: option.splits)
  let ?c = "[var_move e i (T e - 1). i \<leftarrow> range_py 1 10]"
  have "?c \<in> set (one_move e (T e - 1))" unfolding one_move_def by simp
  then have "?c \<in> set (concat [one_move e t. t \<leftarrow> range_py 0 (T e)])"
    by (rule in_concat_comp1 [where f = "one_move e", rotated]) (use T1 in simp)
  then have "?c \<in> set (encode_lits e p)" unfolding encode_lits_def by simp
  with collect_Inr [OF col] obtain c where c: "c \<in> set cnf" "?c = map Inr c" by auto
  from T1 obtain v where v: "var_move e 9 (T e - 1) = Inr v" by (simp add: var_move_Inr)
  have "var_move e 9 (T e - 1) \<in> set ?c" by simp
  with v c(2) have "v \<in> set c" by auto
  with m c(1) have "\<bar>v\<bar> \<le> len m" unfolding pysat_model_def by blast
  moreover from v have "v = (T e + 1) * (N e * M e) + ((T e - 1) * 9 + (9 - 1)) + 1"
    by (simp add: var_move_Inr)
  ultimately show ?thesis by (simp add: algebra_simps)
qed

lemma padded_model:
  assumes k: "0 \<le> k" "k \<le> K" and i: "init g k = Inr e" and enc: "encode e = Inr cnf"
    and m: "pysat_model m cnf"
  shows "\<exists>cnf' m'. encode (e\<lparr>T := K + 1\<rparr>) = Inr cnf' \<and> pysat_model m' cnf'"
proof -
  let ?e = "e\<lparr>T := K + 1\<rparr>"
  from enc obtain p where p: "player_start e = Some p"
    and col: "collect (encode_lits e p) = Inr cnf"
    by (auto simp: encode_def split: option.splits)
  from init_facts [OF i] p have nb: "num_boxes e = len (boxes e)"
    and wf: "\<forall>q \<in> set (boxes e) \<union> set (walls e).
               0 \<le> fst q \<and> fst q < N e \<and> 0 \<le> snd q \<and> snd q < M e"
    and pb: "0 \<le> fst p" "fst p < N e" "0 \<le> snd p" "snd p < M e"
    by simp_all
  from m have "\<forall>c \<in> set cnf. clause_holds (var_true m) c" unfolding pysat_model_def by blast
  from collect_holds [OF col this]
  have hold: "\<forall>c \<in> set (encode_lits e p). holds (var_true m) c" by (simp add: sound_def)
  have "\<forall>c' \<in> set (encode_lits ?e p). sound (pad e ?e (var_true m)) c'"
    using encode_lits_sound [OF init_extends [OF i k] pb nb wf hold] by blast
  from sound_collect [OF this] obtain cnf' where
    col': "collect (encode_lits ?e p) = Inr cnf'"
    and h': "\<forall>c \<in> set cnf'. clause_holds (pad e ?e (var_true m)) c" by blast
  from col' p have "encode ?e = Inr cnf'" by (simp add: encode_def)
  with model_of_assignment [OF h'] show ?thesis by blast
qed

text \<open>
  C4.  Let the solver answer the two clause lists correctly.  If
  \<open>solve_sokoban\<close> returns a move sequence for the grid at horizon \<open>k \<ge> 0\<close>, then
  at every horizon \<open>K \<ge> k\<close> the encoder builds a clause list, that list has a model,
  and \<open>solve_sokoban\<close> returns a move sequence: the model at horizon \<open>k\<close> padded
  with stays is a model at horizon \<open>K\<close>.
\<close>

theorem longer_horizon_solvable:
  assumes k: "0 \<le> k" "k \<le> K"
    and run: "solve_sokoban solver g k = Inr (Moves ms)"
    and sk: "\<forall>cnf. sokoban_cnf g k = Inr cnf \<longrightarrow> answers_correctly solver cnf"
    and sK: "\<forall>cnf. sokoban_cnf g K = Inr cnf \<longrightarrow> answers_correctly solver cnf"
  shows "\<exists>cnf' m' ms'. sokoban_cnf g K = Inr cnf' \<and> pysat_model m' cnf'
           \<and> solve_sokoban solver g K = Inr (Moves ms')"
proof -
  from run obtain e cnf m where i: "init g k = Inr e" and enc: "encode e = Inr cnf"
    and s: "solver cnf = Some m"
    by (auto simp: solve_sokoban_def split: sum.splits option.splits if_splits)
  from i enc have "sokoban_cnf g k = Inr cnf" by (simp add: sokoban_cnf_def)
  with sk s have m: "pysat_model m cnf" by (auto simp: answers_correctly_def)
  let ?e = "e\<lparr>T := K + 1\<rparr>"
  from padded_model [OF k i enc m] obtain cnf' m' where
    enc': "encode ?e = Inr cnf'" and m': "pysat_model m' cnf'" by blast
  have i': "init g K = Inr ?e" by (rule init_horizon [OF i])
  with enc' have c': "sokoban_cnf g K = Inr cnf'" by (simp add: sokoban_cnf_def)
  with sK have "answers_correctly solver cnf'" by blast
  with m' obtain m2 where s2: "solver cnf' = Some m2" and m2: "pysat_model m2 cnf'"
    by (auto simp: answers_correctly_def split: option.splits)
  from init_facts [OF i] k have d: "1 \<le> T ?e" "0 \<le> N ?e" "0 \<le> M ?e" by simp_all
  from encode_covers [OF enc' d m2]
  have cov: "(T ?e + 1) * N ?e * M ?e + 9 * T ?e \<le> len m2" .
  from d have "0 \<le> (T ?e + 1) * N ?e * M ?e" by simp
  with cov d(1) have "0 < len m2" by linarith
  then have ne: "m2 \<noteq> []" by (auto simp: len_def)
  from d(1) have "0 \<le> T ?e" by simp
  from decode_eq [OF this d(2,3) cov] obtain ms' where "decode m2 ?e = Inr ms'" by blast
  with i' enc' s2 ne have "solve_sokoban solver g K = Inr (Moves ms')"
    by (simp add: solve_sokoban_def)
  with c' m2 show ?thesis by blast
qed

theorem longer_horizon_solvable_witness:
  "solve_sokoban
      (\<lambda>cnf. if length cnf = 155
                then Some [-1, -2, 3, 4, -5, -6, -7, 8, -9, -10, -11, -12, -13, -14, -15, -16, -17, 18,
                      -19, -20, -21, -22, -23, 24, -25, -26, -27, -28, 29, -30, -31, -32, 33]
                else Some [-1, -2, 3, 4, -5, -6, 7, -8, -9, -10, 11, -12, -13, -14, -15, -16, -17, -18,
                      -19, -20, 21, -22, -23, -24, -25, -26, -27, -28, -29, 30, -31, -32, -33, -34,
                      -35, 36, -37, -38, -39, -40, 41, -42, -43, 44, -45, -46, -47, 48])
      [[''P'', ''B'', ''G'']] 1 = Inr (Moves [''R''])
   \<and> (\<exists>cnf' m' ms'. sokoban_cnf [[''P'', ''B'', ''G'']] 2 = Inr cnf' \<and> pysat_model m' cnf'
         \<and> solve_sokoban
              (\<lambda>cnf. if length cnf = 155
                then Some [-1, -2, 3, 4, -5, -6, -7, 8, -9, -10, -11, -12, -13, -14, -15, -16, -17, 18,
                      -19, -20, -21, -22, -23, 24, -25, -26, -27, -28, 29, -30, -31, -32, 33]
                else Some [-1, -2, 3, 4, -5, -6, 7, -8, -9, -10, 11, -12, -13, -14, -15, -16, -17, -18,
                      -19, -20, 21, -22, -23, -24, -25, -26, -27, -28, -29, 30, -31, -32, -33, -34,
                      -35, 36, -37, -38, -39, -40, 41, -42, -43, 44, -45, -46, -47, 48])
              [[''P'', ''B'', ''G'']] 2 = Inr (Moves ms'))"
proof -
  let ?s = "(\<lambda>cnf. if length cnf = 155
                then Some [-1, -2, 3, 4, -5, -6, -7, 8, -9, -10, -11, -12, -13, -14, -15, -16, -17, 18,
                      -19, -20, -21, -22, -23, 24, -25, -26, -27, -28, 29, -30, -31, -32, 33]
                else Some [-1, -2, 3, 4, -5, -6, 7, -8, -9, -10, 11, -12, -13, -14, -15, -16, -17, -18,
                      -19, -20, 21, -22, -23, -24, -25, -26, -27, -28, -29, 30, -31, -32, -33, -34,
                      -35, 36, -37, -38, -39, -40, 41, -42, -43, 44, -45, -46, -47, 48])"
  let ?g = "[[''P'', ''B'', ''G'']]"
  have run: "solve_sokoban ?s ?g 1 = Inr (Moves [''R''])" by code_simp
  have a1: "case sokoban_cnf ?g 1 of Inl er \<Rightarrow> False
            | Inr cnf \<Rightarrow> (case ?s cnf of None \<Rightarrow> False | Some m \<Rightarrow> pysat_model m cnf)"
    by code_simp
  have a2: "case sokoban_cnf ?g 2 of Inl er \<Rightarrow> False
            | Inr cnf \<Rightarrow> (case ?s cnf of None \<Rightarrow> False | Some m \<Rightarrow> pysat_model m cnf)"
    by code_simp
  from a1 have s1: "\<forall>cnf. sokoban_cnf ?g 1 = Inr cnf \<longrightarrow> answers_correctly ?s cnf"
    by (auto simp: answers_correctly_def split: sum.splits option.splits)
  from a2 have s2: "\<forall>cnf. sokoban_cnf ?g 2 = Inr cnf \<longrightarrow> answers_correctly ?s cnf"
    by (auto simp: answers_correctly_def split: sum.splits option.splits)
  from longer_horizon_solvable [OF _ _ run s1 s2] run show ?thesis by simp
qed

end
